theory Spec2Isabelle
  imports Complex_Main "HOL-Library.Word"
begin

unbundle bit_operations_syntax

section \<open>LSB steganography transport of D-IBAN (steganography module, version 2.0)\<close>

text \<open>
  The development embeds the bit queue, the pixel writer \<open>encodeLSB\<close>, the pixel reader
  \<open>PixelBitReader\<close> and the frame handling of \<open>encodeAddressInImage\<close> and
  \<open>decodeAddressFromImage\<close>.

  Conventions of the embedding.
  \<^item> A typed array of bytes (\<open>Uint8Array\<close>, \<open>Uint8ClampedArray\<close>) is a list of 8-bit
    words. A pixel buffer is the flat RGBA array of the source, four entries per pixel.
  \<^item> The result of a JavaScript bitwise operator is a signed 32-bit integer. It is held as
    a 32-bit word; the number the program sees is \<open>sint\<close> of that word. \<open><<\<close> is
    \<open>push_bit\<close>, \<open>>>\<close> is \<open>signed_drop_bit\<close>, \<open>|\<close> is \<open>OR\<close>, \<open>&\<close> is \<open>AND\<close>.
  \<^item> A cell of the bit queue holds the number 0 or 1 (every push goes through \<open>& 1\<close>);
    it is a \<open>bool\<close>.
  \<^item> A \<open>throw\<close> is a value of type \<open>error\<close>. \<open>encodeLSB\<close> mutates its argument in
    place and may throw after some writes, so it returns the raised error (if any)
    together with the buffer as it is left.
  \<^item> Canvas and file handling, and the Base58 / UTF-8 interpretation of the payload, are
    outside the embedding: encoding starts at the payload bytes and the type byte,
    decoding ends at the type byte and the payload bytes.
\<close>

type_synonym u8 = "8 word"
type_synonym int32 = "32 word"

datatype error =
    ImageTooSmallForData          \<comment> \<open>"Image too small for data" (encodeLSB)\<close>
  | ImageTooSmall nat nat         \<comment> \<open>"Image too small. Need .. pixels but have .." (pixelsNeeded, 4 * totalPixels)\<close>
  | NotEnoughData                 \<comment> \<open>"Not enough data in image while reading bytes"\<close>
  | MagicMarkerNotFound           \<comment> \<open>"Magic marker not found"\<close>
  | InvalidDataLength             \<comment> \<open>"Invalid data length"\<close>

definition MAGIC_MARKER :: "u8 list" where
  "MAGIC_MARKER = [0x44, 0x4F, 0x47, 0x45]"

subsection \<open>Reading and storing array elements\<close>

text \<open>
  \<open>a[i]\<close> used as an operand of \<open>&\<close>: an index outside the array reads \<open>undefined\<close>,
  which the operator turns into 0.
\<close>

definition px_at :: "u8 list \<Rightarrow> nat \<Rightarrow> int32" where
  "px_at a i = (if i < length a then ucast (a ! i) else 0)"

text \<open>Storing a number into a \<open>Uint8ClampedArray\<close> clamps it to 0..255.\<close>

definition toUint8Clamped :: "int32 \<Rightarrow> u8" where
  "toUint8Clamped v = (if sint v < 0 then 0 else if 255 < sint v then 255 else ucast v)"

text \<open>Storing a number into a \<open>Uint8Array\<close> keeps its low 8 bits.\<close>

definition toUint8 :: "int32 \<Rightarrow> u8" where
  "toUint8 v = ucast v"

subsection \<open>class BitQueue\<close>

record BitQueue =
  this_bits :: "bool list"

definition newBitQueue :: BitQueue where
  "newBitQueue = \<lparr>this_bits = []\<rparr>"

text \<open>\<open>for (let i = 7; i >= 0; i--) this.bits.push((byte >> i) & 1)\<close>\<close>

definition pushByte :: "BitQueue \<Rightarrow> u8 \<Rightarrow> BitQueue" where
  "pushByte bq byte =
     bq\<lparr>this_bits := this_bits bq @
          map (\<lambda>i. bit (signed_drop_bit i (ucast byte :: int32) AND 1) 0) [7, 6, 5, 4, 3, 2, 1, 0]\<rparr>"

text \<open>
  \<open>for (let i = count - 1; i >= 0; i--) this.bits.push((value >> i) & 1)\<close>;
  a shift count is taken modulo 32.
\<close>

definition pushBitsFromValue :: "BitQueue \<Rightarrow> int32 \<Rightarrow> nat \<Rightarrow> BitQueue" where
  "pushBitsFromValue bq v count =
     bq\<lparr>this_bits := this_bits bq @ map (\<lambda>i. bit (signed_drop_bit (i mod 32) v AND 1) 0) (rev [0..<count])\<rparr>"

text \<open>
  The loop of \<open>popBits\<close>: \<open>out = (out << 1) | this.bits.shift()\<close>, \<open>k\<close> more times.
  \<open>shift()\<close> on an empty array gives \<open>undefined\<close>, which \<open>|\<close> reads as 0.
\<close>

fun popBits_loop :: "nat \<Rightarrow> int32 \<Rightarrow> bool list \<Rightarrow> int32 \<times> bool list" where
  "popBits_loop 0 out bs = (out, bs)"
| "popBits_loop (Suc k) out [] = popBits_loop k (push_bit 1 out) []"
| "popBits_loop (Suc k) out (b # bs) = popBits_loop k (push_bit 1 out OR of_bool b) bs"

text \<open>\<open>None\<close> is the \<open>null\<close> of the source.\<close>

definition popBits :: "BitQueue \<Rightarrow> nat \<Rightarrow> int32 option \<times> BitQueue" where
  "popBits bq n =
     (if length (this_bits bq) < n then (None, bq)
      else (case popBits_loop n 0 (this_bits bq) of
              (out, bs) \<Rightarrow> (Some out, bq\<lparr>this_bits := bs\<rparr>)))"

definition popByte :: "BitQueue \<Rightarrow> int32 option \<times> BitQueue" where
  "popByte bq = popBits bq 8"

definition size_bits :: "BitQueue \<Rightarrow> nat" where
  "size_bits bq = length (this_bits bq)"

subsection \<open>encodeLSB\<close>

text \<open>
  The padding loop of the last pixel:
  \<open>for (i < 3) { b = q.popBits(1); bits = (bits << 1) | (b === null ? 0 : b) }\<close>.
\<close>

fun padBits_loop :: "nat \<Rightarrow> int32 \<Rightarrow> BitQueue \<Rightarrow> int32 \<times> BitQueue" where
  "padBits_loop 0 bits3 bq = (bits3, bq)"
| "padBits_loop (Suc k) bits3 bq =
     (case popBits bq 1 of
        (b, bq') \<Rightarrow> padBits_loop k (push_bit 1 bits3 OR (case b of None \<Rightarrow> 0 | Some v \<Rightarrow> v)) bq')"

text \<open>
  Taking the bits of one pixel. A \<open>null\<close> from \<open>popBits(3)\<close> would be read as 0 by the
  operators that follow.
\<close>

definition takePixelBits :: "BitQueue \<Rightarrow> int32 \<times> BitQueue" where
  "takePixelBits bq =
     (let remaining = size_bits bq in
      if 3 \<le> remaining
      then (case popBits bq 3 of (b, bq') \<Rightarrow> ((case b of None \<Rightarrow> 0 | Some v \<Rightarrow> v), bq'))
      else padBits_loop 3 0 bq)"

text \<open>The four stores of one pixel; a store outside the array is ignored.\<close>

definition writePixel :: "u8 list \<Rightarrow> nat \<Rightarrow> int32 \<Rightarrow> u8 list" where
  "writePixel pixels pixelIndex bits3 =
     (let base = pixelIndex * 4;
          pixels1 = pixels[base := toUint8Clamped ((px_at pixels base AND 0xFE) OR (signed_drop_bit 2 bits3 AND 1))];
          pixels2 = pixels1[base + 1 := toUint8Clamped ((px_at pixels1 (base + 1) AND 0xFE) OR (signed_drop_bit 1 bits3 AND 1))];
          pixels3 = pixels2[base + 2 := toUint8Clamped ((px_at pixels2 (base + 2) AND 0xFE) OR (bits3 AND 1))]
      in pixels3[base + 3 := toUint8Clamped 255])"

text \<open>
  The \<open>while (q.size() > 0)\<close> loop. \<open>totalPixels = pixels.length / 4\<close> is not rounded, so
  \<open>pixelIndex >= totalPixels\<close> is \<open>length pixels \<le> 4 * pixelIndex\<close>.
\<close>

function encodeLSB_while :: "BitQueue \<Rightarrow> nat \<Rightarrow> u8 list \<Rightarrow> error option \<times> u8 list" where
  "encodeLSB_while bq pixelIndex pixels =
     (if 0 < size_bits bq then
        (if length pixels \<le> 4 * pixelIndex then (Some ImageTooSmallForData, pixels)
         else encodeLSB_while (snd (takePixelBits bq)) (pixelIndex + 1)
                (writePixel pixels pixelIndex (fst (takePixelBits bq))))
      else (None, pixels))"
  by pat_completeness auto
termination
proof (relation "measure (\<lambda>(bq, pixelIndex, pixels). size_bits bq)")
  show "wf (measure (\<lambda>(bq, pixelIndex, pixels). size_bits bq))"
    by simp
next
  fix bq :: BitQueue and pixelIndex :: nat and pixels :: "u8 list"
  assume pos: "0 < size_bits bq"
  have loop: "snd (popBits_loop n out bs) = drop n bs" for n out bs
    by (induction n out bs rule: popBits_loop.induct) simp_all
  have pop: "this_bits (snd (popBits q n)) = (if length (this_bits q) < n then this_bits q else drop n (this_bits q))"
    for q n
    using loop [of n 0 "this_bits q"] by (auto simp add: popBits_def split: prod.splits)
  have pad: "length (this_bits (snd (padBits_loop k v q))) = length (this_bits q) - k"
    if "length (this_bits q) \<le> k" for k v q
    using that
  proof (induction k v q rule: padBits_loop.induct)
    case (1 bits3 bq)
    then show ?case by simp
  next
    case (2 k bits3 bq)
    have "length (this_bits (snd (popBits bq 1))) \<le> k"
      using "2.prems" by (auto simp add: pop)
    with "2.IH" [of "fst (popBits bq 1)" "snd (popBits bq 1)"] "2.prems"
    show ?case by (simp add: split_beta)
  qed
  have "size_bits (snd (takePixelBits bq)) < size_bits bq"
  proof (cases "3 \<le> length (this_bits bq)")
    case True
    with pos show ?thesis
      by (simp add: takePixelBits_def size_bits_def Let_def split_beta pop)
  next
    case False
    with pos pad [of bq 3 0] show ?thesis
      by (simp add: takePixelBits_def size_bits_def Let_def)
  qed
  then show "((snd (takePixelBits bq), pixelIndex + 1,
               writePixel pixels pixelIndex (fst (takePixelBits bq))),
              bq, pixelIndex, pixels)
             \<in> measure (\<lambda>(bq, pixelIndex, pixels). size_bits bq)"
    by simp
qed

text \<open>
  \<open>encodeLSB(pixels, dataBytes)\<close>: every byte is pushed into a new queue, then the loop
  runs from pixel 0. The result is the error thrown (if any) and the buffer as left.
\<close>

definition encodeLSB :: "u8 list \<Rightarrow> u8 list \<Rightarrow> error option \<times> u8 list" where
  "encodeLSB pixels dataBytes = encodeLSB_while (foldl pushByte newBitQueue dataBytes) 0 pixels"

subsection \<open>class PixelBitReader\<close>

record PixelBitReader =
  this_pixels :: "u8 list"
  this_pixelIndex :: nat
  this_q :: BitQueue
  this_totalPixels :: nat

definition newPixelBitReader :: "u8 list \<Rightarrow> PixelBitReader" where
  "newPixelBitReader pixels =
     \<lparr>this_pixels = pixels, this_pixelIndex = 0, this_q = newBitQueue,
      this_totalPixels = length pixels div 4\<rparr>"

text \<open>\<open>_fillBits(n)\<close>: the flag returned and the reader as left.\<close>

function fillBits :: "PixelBitReader \<Rightarrow> nat \<Rightarrow> bool \<times> PixelBitReader" where
  "fillBits rd n =
     (if size_bits (this_q rd) < n then
        (if this_totalPixels rd \<le> this_pixelIndex rd then (False, rd)
         else
           (let base = this_pixelIndex rd * 4;
                b0 = px_at (this_pixels rd) base AND 1;
                b1 = px_at (this_pixels rd) (base + 1) AND 1;
                b2 = px_at (this_pixels rd) (base + 2) AND 1;
                bits3 = push_bit 2 b0 OR push_bit 1 b1 OR b2
            in fillBits (rd\<lparr>this_q := pushBitsFromValue (this_q rd) bits3 3,
                            this_pixelIndex := this_pixelIndex rd + 1\<rparr>) n))
      else (True, rd))"
  by pat_completeness auto
termination
  by (relation "measure (\<lambda>(rd, n). this_totalPixels rd - this_pixelIndex rd)") auto

definition reader_popBits :: "PixelBitReader \<Rightarrow> nat \<Rightarrow> int32 option \<times> PixelBitReader" where
  "reader_popBits rd n =
     (case fillBits rd n of
        (False, rd') \<Rightarrow> (None, rd')
      | (True, rd') \<Rightarrow> (case popBits (this_q rd') n of (v, bq') \<Rightarrow> (v, rd'\<lparr>this_q := bq'\<rparr>)))"

definition reader_popByte :: "PixelBitReader \<Rightarrow> int32 option \<times> PixelBitReader" where
  "reader_popByte rd = reader_popBits rd 8"

text \<open>
  The loop of \<open>readBytes\<close>, from index \<open>i\<close>: \<open>out[i] = b\<close> stores into a \<open>Uint8Array\<close>.
\<close>

function readBytes_for :: "nat \<Rightarrow> nat \<Rightarrow> PixelBitReader \<Rightarrow> u8 list \<Rightarrow> error + (u8 list \<times> PixelBitReader)" where
  "readBytes_for i count rd out =
     (if i < count then
        (case reader_popByte rd of
           (None, rd') \<Rightarrow> Inl NotEnoughData
         | (Some b, rd') \<Rightarrow> readBytes_for (i + 1) count rd' (out[i := toUint8 b]))
      else Inr (out, rd))"
  by pat_completeness auto
termination
  by (relation "measure (\<lambda>(i, count, rd, out). count - i)") auto

definition readBytes :: "PixelBitReader \<Rightarrow> nat \<Rightarrow> error + (u8 list \<times> PixelBitReader)" where
  "readBytes rd count = readBytes_for 0 count rd (replicate count 0)"

subsection \<open>encodeAddressInImage\<close>

text \<open>
  The part of \<open>encodeAddressInImage\<close> that follows the choice of \<open>dataTypeByte\<close> and
  \<open>dataBytes\<close>: the frame \<open>full\<close>, the capacity check and the call of \<open>encodeLSB\<close>.
  \<open>dataBytes.length >> 8\<close> works on the length as a 32-bit integer.
\<close>

definition lengthBytes :: "u8 list \<Rightarrow> u8 list" where
  "lengthBytes dataBytes =
     [toUint8 (signed_drop_bit 8 (word_of_nat (length dataBytes)) AND 0xFF),
      toUint8 (word_of_nat (length dataBytes) AND 0xFF)]"

definition full :: "u8 \<Rightarrow> u8 list \<Rightarrow> u8 list" where
  "full dataTypeByte dataBytes =
     MAGIC_MARKER @ [dataTypeByte] @ [lengthBytes dataBytes ! 0] @ [lengthBytes dataBytes ! 1] @ dataBytes"

text \<open>
  The capacity check and the call of \<open>encodeLSB\<close>:
  \<open>totalBits = full.length * 8\<close>, \<open>pixelsNeeded = Math.ceil(totalBits / 3)\<close>.
  \<open>totalPixels = pixels.length / 4\<close> is not rounded: \<open>pixelsNeeded > totalPixels\<close> is
  \<open>length pixels < 4 * pixelsNeeded\<close>. The error carries the two numbers of its message,
  the second as the array length.
\<close>

definition encodeAddressInImage :: "u8 list \<Rightarrow> u8 \<Rightarrow> u8 list \<Rightarrow> error option \<times> u8 list" where
  "encodeAddressInImage pixels dataTypeByte dataBytes =
     (let frame = full dataTypeByte dataBytes;
          totalBits = length frame * 8;
          needed = nat \<lceil>real totalBits / 3\<rceil>
      in if length pixels < 4 * needed
         then (Some (ImageTooSmall needed (length pixels)), pixels)
         else encodeLSB pixels frame)"

subsection \<open>decodeAddressFromImage\<close>

record FormatDecision =
  isNewFormat :: bool
  dataTypeByte :: u8
  dataLength :: int32

text \<open>
  Steps 1 and 2 of \<open>decodeAddressFromImage\<close>: the magic is read and compared, a second
  reader is advanced past it, three bytes are read from it and the format is decided.
  The result is the decision and \<open>reader2\<close> as left.
\<close>

definition decideFormat :: "u8 list \<Rightarrow> error + (FormatDecision \<times> PixelBitReader)" where
  "decideFormat pixels =
     (case readBytes (newPixelBitReader pixels) 4 of
        Inl e \<Rightarrow> Inl e
      | Inr (magic, reader) \<Rightarrow>
          if list_ex (\<lambda>i. magic ! i \<noteq> MAGIC_MARKER ! i) [0..<4] then Inl MagicMarkerNotFound
          else
            (case readBytes (newPixelBitReader pixels) 4 of
               Inl e \<Rightarrow> Inl e
             | Inr (skipped, reader2) \<Rightarrow>
                 (case readBytes reader2 3 of
                    Inl e \<Rightarrow> Inl e
                  | Inr (peek, reader2') \<Rightarrow>
                      (let firstByte = peek ! 0;
                           lenHi = peek ! 1;
                           lenLo = peek ! 2;
                           possibleLen = push_bit 8 (ucast lenHi) OR ucast lenLo :: int32
                       in if (firstByte = 0x00 \<or> firstByte = 0x01) \<and>
                             1 \<le> sint possibleLen \<and> sint possibleLen \<le> 2000
                          then Inr (\<lparr>isNewFormat = True, dataTypeByte = firstByte,
                                     dataLength = possibleLen\<rparr>, reader2')
                          else Inr (\<lparr>isNewFormat = False, dataTypeByte = 0x00,
                                     dataLength = push_bit 8 (ucast (peek ! 0)) OR ucast (peek ! 1)\<rparr>,
                                    reader2')))))"

text \<open>
  The whole frame parsing: the decision, then the payload bytes, from a third reader in
  the old format and from \<open>reader2\<close> in the new one. The result is what the source hands
  to the Base58 / UTF-8 interpretation: the decision and the payload bytes. The last
  \<open>throw\<close> of the source ("Unexpected decode path") is never reached: the old-format
  branch returns, and after it \<open>isNewFormat\<close> holds.
\<close>

definition decodeAddressFromImage :: "u8 list \<Rightarrow> error + (FormatDecision \<times> u8 list)" where
  "decodeAddressFromImage pixels =
     (case decideFormat pixels of
        Inl e \<Rightarrow> Inl e
      | Inr (d, reader2) \<Rightarrow>
          if \<not> isNewFormat d then
            (case readBytes (newPixelBitReader pixels) 4 of
               Inl e \<Rightarrow> Inl e
             | Inr (skipped4, reader3) \<Rightarrow>
                 (case readBytes reader3 2 of
                    Inl e \<Rightarrow> Inl e
                  | Inr (skipped2, reader3') \<Rightarrow>
                      (case readBytes reader3' (nat (sint (dataLength d))) of
                         Inl e \<Rightarrow> Inl e
                       | Inr (dataBytesOld, reader3'') \<Rightarrow> Inr (d, dataBytesOld))))
          else if sint (dataLength d) < 1 \<or> 2000 < sint (dataLength d) then Inl InvalidDataLength
          else
            (case readBytes reader2 (nat (sint (dataLength d))) of
               Inl e \<Rightarrow> Inl e
             | Inr (dataBytes, reader2') \<Rightarrow> Inr (d, dataBytes)))"

subsection \<open>Vocabulary of the statements\<close>

text \<open>
  The bits a byte sequence puts on the wire, each byte most significant bit first: a byte
  gives what \<open>pushByte\<close> appends for it.
\<close>

definition bitsOfByte :: "u8 \<Rightarrow> bool list" where
  "bitsOfByte byte = this_bits (pushByte newBitQueue byte)"

definition bitsOfBytes :: "u8 list \<Rightarrow> bool list" where
  "bitsOfBytes dataBytes = concat (map bitsOfByte dataBytes)"

text \<open>
  The bit stream a pixel buffer carries: for each whole pixel in order, the lowest bit of
  R, of G and of B.
\<close>

definition pixelLSBs :: "u8 list \<Rightarrow> nat \<Rightarrow> bool list" where
  "pixelLSBs pixels k = [bit (pixels ! (4 * k)) 0, bit (pixels ! (4 * k + 1)) 0, bit (pixels ! (4 * k + 2)) 0]"

definition lsbStream :: "u8 list \<Rightarrow> bool list" where
  "lsbStream pixels = concat (map (pixelLSBs pixels) [0..<length pixels div 4])"

text \<open>
  What a reader still has to deliver: the bits it has queued, then the bits of the pixels
  it has not consumed.
\<close>

definition readerStream :: "PixelBitReader \<Rightarrow> bool list" where
  "readerStream rd =
     this_bits (this_q rd) @
     concat (map (pixelLSBs (this_pixels rd)) [this_pixelIndex rd..<this_totalPixels rd])"

text \<open>
  The number of pixels the frame of a payload needs, as the capacity claims write it:
  \<open>ceil((4 + 1 + 2 + payloadLength) * 8 / 3)\<close>.
\<close>

definition pixelsNeeded :: "nat \<Rightarrow> nat" where
  "pixelsNeeded payloadLength = nat \<lceil>real ((4 + 1 + 2 + payloadLength) * 8) / 3\<rceil>"

text \<open>The unsigned value of a bit sequence, first bit most significant.\<close>

definition bitsValue :: "bool list \<Rightarrow> nat" where
  "bitsValue bs = foldl (\<lambda>a b. 2 * a + of_bool b) 0 bs"

declare encodeLSB_while.simps [simp del]
declare fillBits.simps [simp del]
declare readBytes_for.simps [simp del]

section \<open>The bit queue\<close>

lemma popBits_loop_snd: "snd (popBits_loop n out bs) = drop n bs"
  by (induction n out bs rule: popBits_loop.induct) simp_all

lemma popBits_loop_bit:
  "n \<le> length bs \<Longrightarrow>
   bit (fst (popBits_loop n out bs)) i \<longleftrightarrow>
     i < 32 \<and> (if i < n then bs ! (n - 1 - i) else bit out (i - n))"
proof (induction n out bs arbitrary: i rule: popBits_loop.induct)
  case (1 out bs)
  then show ?case by (auto dest: bit_imp_le_length)
next
  case (2 k out)
  then show ?case by simp
next
  case (3 k out b bs)
  have le: "k \<le> length bs"
    using "3.prems" by simp
  have new: "bit (push_bit 1 out OR of_bool b) j \<longleftrightarrow> (if j = 0 then b else j < 32 \<and> bit out (j - 1))" for j
    unfolding bit_or_iff bit_push_bit_iff bit_of_bool_iff possible_bit_word
    by (cases j) auto
  have IH: "bit (fst (popBits_loop k (push_bit 1 out OR of_bool b) bs)) i \<longleftrightarrow>
      i < 32 \<and> (if i < k then bs ! (k - 1 - i) else bit (push_bit 1 out OR of_bool b) (i - k))"
    by (rule "3.IH" [OF le])
  consider "i < k" | "i = k" | "k < i" by linarith
  then show ?case
  proof cases
    case 1
    then have "(b # bs) ! (Suc k - 1 - i) = bs ! (k - 1 - i)"
      by (simp add: nth_Cons')
    with 1 IH show ?thesis by simp
  next
    case 2
    with IH new [of 0] show ?thesis by simp
  next
    case 3
    then have "i - k \<noteq> 0" and "i - k - 1 = i - Suc k" and "\<not> i < Suc k" and "\<not> i < k"
      by simp_all
    with IH new [of "i - k"] show ?thesis by auto
  qed
qed

lemma bitsValue_snoc: "bitsValue (bs @ [b]) = 2 * bitsValue bs + of_bool b"
  by (simp add: bitsValue_def)

lemma bitsValue_less: "bitsValue bs < 2 ^ length bs"
proof (induction bs rule: rev_induct)
  case Nil
  then show ?case by (simp add: bitsValue_def)
next
  case (snoc b bs)
  then show ?case by (cases b) (simp_all add: bitsValue_snoc)
qed

lemma push_or_of_bool: "push_bit 1 (w :: int32) OR of_bool b = 2 * w + of_bool b"
  by (cases b) (simp_all add: push_bit_eq_mult or_one_eq)

lemma popBits_loop_value_aux:
  "n \<le> length bs \<Longrightarrow> out = word_of_nat a \<Longrightarrow>
   fst (popBits_loop n out bs) = word_of_nat (foldl (\<lambda>a b. 2 * a + of_bool b) a (take n bs))"
proof (induction n out bs arbitrary: a rule: popBits_loop.induct)
  case (1 out bs)
  then show ?case by simp
next
  case (2 k out)
  then show ?case by simp
next
  case (3 k out b bs)
  have le: "k \<le> length bs"
    using "3.prems"(1) by simp
  have "push_bit 1 out OR of_bool b = word_of_nat (2 * a + of_bool b)"
    unfolding push_or_of_bool "3.prems"(2) by simp
  then have "fst (popBits_loop k (push_bit 1 out OR of_bool b) bs) =
      word_of_nat (foldl (\<lambda>a b. 2 * a + of_bool b) (2 * a + of_bool b) (take k bs))"
    by (rule "3.IH" [OF le])
  then show ?case
    by (simp only: popBits_loop.simps take_Suc_Cons foldl_Cons)
qed

lemma popBits_loop_value:
  "n \<le> length bs \<Longrightarrow>
   fst (popBits_loop n (word_of_nat a) bs) = word_of_nat (foldl (\<lambda>a b. 2 * a + of_bool b) a (take n bs))"
  by (rule popBits_loop_value_aux) simp_all

lemma sint_of_nat_small:
  assumes "v < 2 ^ 31"
  shows "sint (word_of_nat v :: int32) = int v"
proof -
  have lo: "- (2 ^ (LENGTH(32) - 1)) \<le> int v"
    by simp
  have hi: "int v < 2 ^ (LENGTH(32) - 1)"
    using assms by simp
  have "sint (word_of_int (int v) :: int32) = signed_take_bit (LENGTH(32) - 1) (int v)"
    by (rule sint_sbintrunc')
  also have "\<dots> = int v"
    using lo hi by (rule signed_take_bit_int_eq_self)
  finally have "sint (word_of_int (int v) :: int32) = int v" .
  then show ?thesis
    by (simp only: of_int_of_nat_eq)
qed

lemma popBits_Some:
  assumes "n \<le> length (this_bits bq)"
  shows "popBits bq n = (Some (fst (popBits_loop n 0 (this_bits bq))), bq\<lparr>this_bits := drop n (this_bits bq)\<rparr>)"
  using assms popBits_loop_snd [of n 0 "this_bits bq"]
  by (auto simp add: popBits_def split: prod.splits)

lemma popBits_None: "length (this_bits bq) < n \<Longrightarrow> popBits bq n = (None, bq)"
  by (simp add: popBits_def)

text \<open>
  C8 (popBits contract), as the code has it. For every queue and every \<open>n\<close>:
  \<open>popBits(n)\<close> on a queue with fewer than \<open>n\<close> bits returns \<open>null\<close> and leaves the queue
  as it is; otherwise it removes the first \<open>n\<close> bits, in order, and returns the 32-bit
  integer whose bit pattern is the value of those bits (the first one popped the most
  significant) modulo \<open>2 ^ 32\<close>. For \<open>n \<le> 31\<close> the number returned is the unsigned value of
  the bits itself.
\<close>

theorem popBits_contract:
  "popBits bq n =
     (if length (this_bits bq) < n then (None, bq)
      else (Some (word_of_nat (bitsValue (take n (this_bits bq)))),
            bq\<lparr>this_bits := drop n (this_bits bq)\<rparr>))
   \<and> (n \<le> 31 \<longrightarrow>
        sint (word_of_nat (bitsValue (take n (this_bits bq))) :: int32) =
          int (bitsValue (take n (this_bits bq))))"
proof (intro conjI impI)
  have val: "fst (popBits_loop n 0 (this_bits bq)) = word_of_nat (bitsValue (take n (this_bits bq)))"
    if "n \<le> length (this_bits bq)"
  proof -
    have "fst (popBits_loop n (word_of_nat 0) (this_bits bq)) =
        word_of_nat (bitsValue (take n (this_bits bq)))"
      unfolding bitsValue_def using that by (rule popBits_loop_value)
    then show ?thesis by simp
  qed
  show "popBits bq n =
     (if length (this_bits bq) < n then (None, bq)
      else (Some (word_of_nat (bitsValue (take n (this_bits bq)))),
            bq\<lparr>this_bits := drop n (this_bits bq)\<rparr>))"
  proof (cases "length (this_bits bq) < n")
    case True
    then show ?thesis
      by (simp only: popBits_None if_True)
  next
    case False
    then have le: "n \<le> length (this_bits bq)" by simp
    show ?thesis
      using False by (simp only: popBits_Some [OF le] val [OF le] if_False)
  qed
next
  assume "n \<le> 31"
  have "bitsValue (take n (this_bits bq)) < 2 ^ length (take n (this_bits bq))"
    by (rule bitsValue_less)
  also have "(2::nat) ^ length (take n (this_bits bq)) \<le> 2 ^ 31"
    using \<open>n \<le> 31\<close> by (intro power_increasing) simp_all
  finally have "bitsValue (take n (this_bits bq)) < 2 ^ 31" .
  then show "sint (word_of_nat (bitsValue (take n (this_bits bq))) :: int32) =
      int (bitsValue (take n (this_bits bq)))"
    by (rule sint_of_nat_small)
qed

text \<open>
  Three bits popped from 1, 1, 0, 1 give 6 and leave the last bit; three bits asked of a
  queue of one bit give \<open>null\<close> and leave the queue.
\<close>

theorem popBits_contract_witness:
  "(3::nat) \<le> 31 \<and>
   popBits \<lparr>this_bits = [True, True, False, True]\<rparr> 3 = (Some 6, \<lparr>this_bits = [True]\<rparr>) \<and>
   sint (6 :: int32) = 6 \<and>
   popBits \<lparr>this_bits = [True]\<rparr> 3 = (None, \<lparr>this_bits = [True]\<rparr>)"
  using popBits_contract [of "\<lparr>this_bits = [True, True, False, True]\<rparr>" 3]
    popBits_contract [of "\<lparr>this_bits = [True]\<rparr>" 3]
  by (simp add: bitsValue_def)

text \<open>
  For \<open>n = 32\<close> the claim fails in the value returned: 32 one bits are popped as the
  number -1, not as the unsigned value of the bits.
\<close>

theorem popBits_contract_counterexample:
  "popBits \<lparr>this_bits = replicate 32 True\<rparr> 32 = (Some (- 1), \<lparr>this_bits = []\<rparr>) \<and>
   sint (- 1 :: int32) = - 1 \<and>
   sint (- 1 :: int32) \<noteq> int (bitsValue (take 32 (replicate 32 True)))"
proof -
  have "popBits \<lparr>this_bits = replicate 32 True\<rparr> 32 = (Some (- 1), \<lparr>this_bits = []\<rparr>)"
    by code_simp
  moreover have "sint (- 1 :: int32) = - 1"
    by simp
  moreover have "(- 1 :: int) \<noteq> int m" for m
    by linarith
  ultimately show ?thesis
    by (simp only: simp_thms)
qed

section \<open>Bytes as bits\<close>

lemma lsb_of_shift:
  "i < 8 \<Longrightarrow> bit (signed_drop_bit i (ucast (x :: u8) :: int32) AND 1) 0 \<longleftrightarrow> bit x i"
  unfolding bit_and_iff bit_signed_drop_bit_iff bit_ucast_iff bit_1_iff
  by simp

lemma lsb_of_ucast:
  "bit (ucast (x :: u8) AND 1 :: int32) 0 \<longleftrightarrow> bit x 0"
  unfolding bit_and_iff bit_ucast_iff bit_1_iff
  by simp

lemma bitsOfByte_bits:
  "bitsOfByte x = [bit x 7, bit x 6, bit x 5, bit x 4, bit x 3, bit x 2, bit x 1, bit x 0]"
  by (simp add: bitsOfByte_def pushByte_def newBitQueue_def lsb_of_shift lsb_of_ucast)

lemma length_bitsOfByte: "length (bitsOfByte x) = 8"
  by (simp add: bitsOfByte_bits)

lemma length_bitsOfBytes: "length (bitsOfBytes xs) = 8 * length xs"
  by (induction xs) (simp_all add: bitsOfBytes_def length_bitsOfByte)

lemma bitsOfBytes_Nil: "bitsOfBytes [] = []"
  by (simp add: bitsOfBytes_def)

lemma bitsOfBytes_Cons: "bitsOfBytes (x # xs) = bitsOfByte x @ bitsOfBytes xs"
  by (simp add: bitsOfBytes_def)

lemma bitsOfBytes_append: "bitsOfBytes (xs @ ys) = bitsOfBytes xs @ bitsOfBytes ys"
  by (simp add: bitsOfBytes_def)

lemma pushByte_bits: "this_bits (pushByte bq x) = this_bits bq @ bitsOfByte x"
  by (simp add: bitsOfByte_def pushByte_def newBitQueue_def)

lemma foldl_pushByte_bits: "this_bits (foldl pushByte bq xs) = this_bits bq @ bitsOfBytes xs"
  by (induction xs arbitrary: bq) (simp_all add: bitsOfBytes_Nil bitsOfBytes_Cons pushByte_bits)

lemma bitsOfByte_inj:
  assumes "bitsOfByte x = bitsOfByte y"
  shows "x = y"
proof (rule bit_word_eqI)
  fix n :: nat
  assume "n < LENGTH(8)"
  then have "n \<in> {0, 1, 2, 3, 4, 5, 6, 7}"
    by auto
  with assms show "bit x n \<longleftrightarrow> bit y n"
    unfolding bitsOfByte_bits by auto
qed

lemma bitsOfBytes_inj:
  "bitsOfBytes xs = bitsOfBytes ys \<Longrightarrow> xs = ys"
proof (induction xs arbitrary: ys)
  case Nil
  then have "length (bitsOfBytes ys) = 0"
    by (simp add: bitsOfBytes_Nil)
  then show ?case by (simp add: length_bitsOfBytes)
next
  case (Cons x xs)
  from Cons.prems have "length (bitsOfBytes ys) = 8 * Suc (length xs)"
    by (metis length_bitsOfBytes length_Cons)
  then obtain y ys' where ys: "ys = y # ys'"
    by (cases ys) (simp_all add: length_bitsOfBytes)
  from Cons.prems have "bitsOfByte x @ bitsOfBytes xs = bitsOfByte y @ bitsOfBytes ys'"
    by (simp add: ys bitsOfBytes_Cons)
  then have "bitsOfByte x = bitsOfByte y" and "bitsOfBytes xs = bitsOfBytes ys'"
    by (simp_all add: length_bitsOfByte)
  then show ?case
    using Cons.IH bitsOfByte_inj ys by blast
qed

section \<open>The pixel reader\<close>

lemma pixel_bits3:
  fixes a b c :: int32
  defines "V \<equiv> push_bit 2 (a AND 1) OR push_bit 1 (b AND 1) OR (c AND 1)"
  shows "bit (signed_drop_bit 2 V AND 1) 0 \<longleftrightarrow> bit a 0"
    and "bit (signed_drop_bit 1 V AND 1) 0 \<longleftrightarrow> bit b 0"
    and "bit (V AND 1) 0 \<longleftrightarrow> bit c 0"
  unfolding V_def bit_and_iff bit_signed_drop_bit_iff bit_or_iff bit_push_bit_iff bit_1_iff
  by simp_all

lemma px_at_lsb: "i < length p \<Longrightarrow> bit (px_at p i) 0 \<longleftrightarrow> bit (p ! i) 0"
  unfolding px_at_def by (simp only: if_True bit_ucast_iff) simp

lemma pushBits_pixel:
  assumes "4 * k + 2 < length p"
  shows "this_bits (pushBitsFromValue bq
            (push_bit 2 (px_at p (k * 4) AND 1) OR push_bit 1 (px_at p (k * 4 + 1) AND 1) OR
             (px_at p (k * 4 + 2) AND 1)) 3) =
         this_bits bq @ pixelLSBs p k"
proof -
  define V where "V = push_bit 2 (px_at p (k * 4) AND 1) OR push_bit 1 (px_at p (k * 4 + 1) AND 1) OR
             (px_at p (k * 4 + 2) AND 1)"
  have idx: "[0..<3] = [0, 1, 2]"
    by (simp add: upt_rec)
  have in_range: "k * 4 < length p" "k * 4 + 1 < length p" "k * 4 + 2 < length p"
    using assms by simp_all
  have "map (\<lambda>i. bit (signed_drop_bit (i mod 32) V AND 1) 0) (rev [0..<3]) =
      [bit (signed_drop_bit 2 V AND 1) 0, bit (signed_drop_bit 1 V AND 1) 0, bit (V AND 1) 0]"
    by (simp add: idx)
  also have "\<dots> = [bit (px_at p (k * 4)) 0, bit (px_at p (k * 4 + 1)) 0, bit (px_at p (k * 4 + 2)) 0]"
    unfolding V_def by (simp only: pixel_bits3)
  also have "\<dots> = pixelLSBs p k"
    unfolding pixelLSBs_def by (simp only: px_at_lsb in_range mult.commute)
  finally show ?thesis
    unfolding pushBitsFromValue_def V_def by simp
qed

lemma length_pixelLSBs: "length (pixelLSBs p k) = 3"
  by (simp add: pixelLSBs_def)

lemma length_concat_pixelLSBs: "length (concat (map (pixelLSBs p) [i..<t])) = 3 * (t - i)"
  by (induction t) (simp_all add: length_pixelLSBs Suc_diff_le)

lemma length_readerStream:
  "length (readerStream rd) =
   length (this_bits (this_q rd)) + 3 * (this_totalPixels rd - this_pixelIndex rd)"
  by (simp add: readerStream_def length_concat_pixelLSBs)

lemma length_lsbStream: "length (lsbStream p) = 3 * (length p div 4)"
  by (simp add: lsbStream_def length_concat_pixelLSBs)

lemma readerStream_new: "readerStream (newPixelBitReader p) = lsbStream p"
  by (simp add: readerStream_def newPixelBitReader_def newBitQueue_def lsbStream_def)

lemma fillBits_spec:
  assumes "4 * this_totalPixels rd \<le> length (this_pixels rd)"
  shows "this_pixels (snd (fillBits rd n)) = this_pixels rd \<and>
         this_totalPixels (snd (fillBits rd n)) = this_totalPixels rd \<and>
         readerStream (snd (fillBits rd n)) = readerStream rd \<and>
         (fst (fillBits rd n) \<longleftrightarrow> n \<le> length (readerStream rd)) \<and>
         (fst (fillBits rd n) \<longrightarrow> n \<le> length (this_bits (this_q (snd (fillBits rd n)))))"
  using assms
proof (induction rd n rule: fillBits.induct)
  case (1 rd n)
  show ?case
  proof (cases "size_bits (this_q rd) < n")
    case False
    then have "fillBits rd n = (True, rd)"
      by (subst fillBits.simps) simp
    with False show ?thesis
      by (simp add: size_bits_def length_readerStream)
  next
    case short: True
    show ?thesis
    proof (cases "this_totalPixels rd \<le> this_pixelIndex rd")
      case True
      with short have "fillBits rd n = (False, rd)"
        by (subst fillBits.simps) simp
      with short True show ?thesis
        by (simp add: size_bits_def length_readerStream)
    next
      case False
      define k where "k = this_pixelIndex rd"
      define bits3 where "bits3 = push_bit 2 (px_at (this_pixels rd) (k * 4) AND 1) OR
          push_bit 1 (px_at (this_pixels rd) (k * 4 + 1) AND 1) OR (px_at (this_pixels rd) (k * 4 + 2) AND 1)"
      define rd' where "rd' = rd\<lparr>this_q := pushBitsFromValue (this_q rd) bits3 3, this_pixelIndex := k + 1\<rparr>"
      have step: "fillBits rd n = fillBits rd' n"
        by (subst fillBits.simps) (simp only: short False if_True if_False Let_def rd'_def bits3_def k_def)
      have range: "4 * k + 2 < length (this_pixels rd)"
        using False "1.prems" by (simp add: k_def)
      have "this_q rd' = pushBitsFromValue (this_q rd) bits3 3"
        by (simp add: rd'_def)
      then have q': "this_bits (this_q rd') = this_bits (this_q rd) @ pixelLSBs (this_pixels rd) k"
        unfolding bits3_def using pushBits_pixel [OF range] by (simp only:)
      have "[k..<this_totalPixels rd] = k # [k + 1..<this_totalPixels rd]"
        using False by (simp add: k_def upt_conv_Cons)
      then have stream: "readerStream rd' = readerStream rd"
        using q' by (simp add: readerStream_def rd'_def k_def)
      have wf': "4 * this_totalPixels rd' \<le> length (this_pixels rd')"
        using "1.prems" by (simp add: rd'_def)
      have IH: "this_pixels (snd (fillBits rd' n)) = this_pixels rd' \<and>
         this_totalPixels (snd (fillBits rd' n)) = this_totalPixels rd' \<and>
         readerStream (snd (fillBits rd' n)) = readerStream rd' \<and>
         (fst (fillBits rd' n) \<longleftrightarrow> n \<le> length (readerStream rd')) \<and>
         (fst (fillBits rd' n) \<longrightarrow> n \<le> length (this_bits (this_q (snd (fillBits rd' n)))))"
        unfolding rd'_def bits3_def k_def
        by (rule "1.IH" [OF short False refl refl refl refl refl]) (use "1.prems" in simp)
      show ?thesis
        unfolding step using IH stream by (simp add: rd'_def)
    qed
  qed
qed

lemma take8_nths:
  assumes "8 \<le> length s"
  shows "[s ! 0, s ! 1, s ! 2, s ! 3, s ! 4, s ! 5, s ! 6, s ! 7] = take 8 s"
proof (rule nth_equalityI)
  show "length [s ! 0, s ! 1, s ! 2, s ! 3, s ! 4, s ! 5, s ! 6, s ! 7] = length (take 8 s)"
    using assms by simp
next
  fix i
  assume "i < length [s ! 0, s ! 1, s ! 2, s ! 3, s ! 4, s ! 5, s ! 6, s ! 7]"
  then have "i \<in> {0, 1, 2, 3, 4, 5, 6, 7}"
    by auto
  then show "[s ! 0, s ! 1, s ! 2, s ! 3, s ! 4, s ! 5, s ! 6, s ! 7] ! i = take 8 s ! i"
    by auto
qed

lemma reader_popBits_Some:
  assumes wf: "4 * this_totalPixels rd \<le> length (this_pixels rd)"
    and enough: "n \<le> length (readerStream rd)"
  shows "\<exists>v rd'. reader_popBits rd n = (Some v, rd') \<and>
           this_pixels rd' = this_pixels rd \<and> this_totalPixels rd' = this_totalPixels rd \<and>
           readerStream rd' = drop n (readerStream rd) \<and>
           (\<forall>i. bit v i \<longleftrightarrow> i < 32 \<and> i < n \<and> readerStream rd ! (n - 1 - i))"
proof -
  define rdf where "rdf = snd (fillBits rd n)"
  define rest where "rest = concat (map (pixelLSBs (this_pixels rdf)) [this_pixelIndex rdf..<this_totalPixels rdf])"
  from fillBits_spec [OF wf, of n] enough
  have f: "fillBits rd n = (True, rdf)" and same: "this_pixels rdf = this_pixels rd"
    "this_totalPixels rdf = this_totalPixels rd" and stream: "readerStream rdf = readerStream rd"
    and le: "n \<le> length (this_bits (this_q rdf))"
    by (simp_all add: rdf_def prod_eq_iff)
  define v where "v = fst (popBits_loop n 0 (this_bits (this_q rdf)))"
  define rd' where "rd' = rdf\<lparr>this_q := (this_q rdf)\<lparr>this_bits := drop n (this_bits (this_q rdf))\<rparr>\<rparr>"
  have split: "readerStream rd = this_bits (this_q rdf) @ rest"
    using stream by (simp add: readerStream_def rest_def)
  have "reader_popBits rd n = (Some v, rd')"
    by (simp add: reader_popBits_def f popBits_Some [OF le] v_def rd'_def)
  moreover have "readerStream rd' = drop n (readerStream rd)"
    using le by (simp add: split) (simp add: readerStream_def rd'_def rest_def)
  moreover have "bit v i \<longleftrightarrow> i < 32 \<and> i < n \<and> readerStream rd ! (n - 1 - i)" for i
  proof (cases "i < n")
    case True
    then have "n - 1 - i < length (this_bits (this_q rdf))"
      using le by simp
    then have "readerStream rd ! (n - 1 - i) = this_bits (this_q rdf) ! (n - 1 - i)"
      by (simp add: split nth_append)
    with True show ?thesis
      unfolding v_def by (simp add: popBits_loop_bit [OF le])
  next
    case False
    then show ?thesis
      unfolding v_def by (simp add: popBits_loop_bit [OF le])
  qed
  ultimately show ?thesis
    using same by (simp add: rd'_def)
qed

lemma reader_popBits_None:
  assumes wf: "4 * this_totalPixels rd \<le> length (this_pixels rd)"
    and short: "length (readerStream rd) < n"
  shows "fst (reader_popBits rd n) = None"
proof -
  from fillBits_spec [OF wf, of n] short
  have "fst (fillBits rd n) = False"
    by simp
  then show ?thesis
    by (cases "fillBits rd n") (simp add: reader_popBits_def)
qed

lemma reader_popByte_Some:
  assumes wf: "4 * this_totalPixels rd \<le> length (this_pixels rd)"
    and enough: "8 \<le> length (readerStream rd)"
  shows "\<exists>v rd'. reader_popByte rd = (Some v, rd') \<and>
           this_pixels rd' = this_pixels rd \<and> this_totalPixels rd' = this_totalPixels rd \<and>
           readerStream rd' = drop 8 (readerStream rd) \<and>
           bitsOfByte (toUint8 v) = take 8 (readerStream rd)"
proof -
  from reader_popBits_Some [OF wf enough] obtain v rd' where
    pop: "reader_popBits rd 8 = (Some v, rd')" and same: "this_pixels rd' = this_pixels rd"
      "this_totalPixels rd' = this_totalPixels rd" "readerStream rd' = drop 8 (readerStream rd)"
    and bits: "\<And>i. bit v i \<longleftrightarrow> i < 32 \<and> i < 8 \<and> readerStream rd ! (8 - 1 - i)"
    by blast
  have "bit (toUint8 v) i \<longleftrightarrow> i < 8 \<and> readerStream rd ! (7 - i)" for i
    unfolding toUint8_def bit_ucast_iff using bits [of i] by auto
  then have "bitsOfByte (toUint8 v) =
      [readerStream rd ! 0, readerStream rd ! 1, readerStream rd ! 2, readerStream rd ! 3,
       readerStream rd ! 4, readerStream rd ! 5, readerStream rd ! 6, readerStream rd ! 7]"
    unfolding bitsOfByte_bits by simp
  also have "\<dots> = take 8 (readerStream rd)"
    using enough by (rule take8_nths)
  finally show ?thesis
    using pop same by (simp add: reader_popByte_def)
qed

lemma readBytes_for_ok:
  assumes "4 * this_totalPixels rd \<le> length (this_pixels rd)"
    and "length out = count" and "i \<le> count"
    and "8 * (count - i) \<le> length (readerStream rd)"
  shows "\<exists>out' rd'. readBytes_for i count rd out = Inr (out', rd') \<and>
           length out' = count \<and> take i out' = take i out \<and>
           bitsOfBytes (drop i out') = take (8 * (count - i)) (readerStream rd) \<and>
           readerStream rd' = drop (8 * (count - i)) (readerStream rd) \<and>
           this_pixels rd' = this_pixels rd \<and> this_totalPixels rd' = this_totalPixels rd"
  using assms
proof (induction i count rd out rule: readBytes_for.induct)
  case (1 i count rd out)
  show ?case
  proof (cases "i < count")
    case False
    with "1.prems" have "i = count" by simp
    then have "readBytes_for i count rd out = Inr (out, rd)"
      by (subst readBytes_for.simps) simp
    then show ?thesis
      using "1.prems" \<open>i = count\<close> by (simp add: bitsOfBytes_Nil)
  next
    case True
    then have "8 \<le> length (readerStream rd)"
      using "1.prems" by simp
    from reader_popByte_Some [OF "1.prems"(1) this] obtain v rd1 where
      pop: "reader_popByte rd = (Some v, rd1)" and px: "this_pixels rd1 = this_pixels rd"
      and tot: "this_totalPixels rd1 = this_totalPixels rd"
      and str: "readerStream rd1 = drop 8 (readerStream rd)"
      and byte: "bitsOfByte (toUint8 v) = take 8 (readerStream rd)"
      by blast
    define out1 where "out1 = out[i := toUint8 v]"
    have step: "readBytes_for i count rd out = readBytes_for (i + 1) count rd1 out1"
      by (subst readBytes_for.simps) (simp add: True pop out1_def)
    have "8 * (count - (i + 1)) \<le> length (readerStream rd1)"
      using "1.prems" True by (simp add: str)
    with "1.IH" [OF True pop [symmetric] refl, folded out1_def] "1.prems" True px tot
    obtain out' rd' where
      res: "readBytes_for (i + 1) count rd1 out1 = Inr (out', rd')" and len: "length out' = count"
      and pre: "take (i + 1) out' = take (i + 1) out1"
      and bits: "bitsOfBytes (drop (i + 1) out') = take (8 * (count - (i + 1))) (readerStream rd1)"
      and str': "readerStream rd' = drop (8 * (count - (i + 1))) (readerStream rd1)"
      and px': "this_pixels rd' = this_pixels rd1" and tot': "this_totalPixels rd' = this_totalPixels rd1"
      by (auto simp add: out1_def)
    have i_lt: "i < length out'" "i < length out1"
      using True len "1.prems" by (simp_all add: out1_def)
    have "take i (take (i + 1) out') = take i (take (i + 1) out1)"
      using pre by simp
    then have pre_i: "take i out' = take i out"
      by (simp add: out1_def min_def)
    have "take (i + 1) out' ! i = take (i + 1) out1 ! i"
      using pre by simp
    then have at_i: "out' ! i = toUint8 v"
      using i_lt "1.prems" by (simp add: out1_def)
    have "drop i out' = out' ! i # drop (i + 1) out'"
      using i_lt by (simp add: Cons_nth_drop_Suc)
    then have "bitsOfBytes (drop i out') = bitsOfByte (toUint8 v) @ bitsOfBytes (drop (i + 1) out')"
      by (simp only: bitsOfBytes_Cons at_i)
    then have "bitsOfBytes (drop i out') =
        take 8 (readerStream rd) @ take (8 * (count - (i + 1))) (drop 8 (readerStream rd))"
      by (simp only: byte bits str)
    also have "\<dots> = take (8 + 8 * (count - (i + 1))) (readerStream rd)"
      by (simp only: take_add)
    also have "8 + 8 * (count - (i + 1)) = 8 * (count - i)"
      using True by simp
    finally have bits_i: "bitsOfBytes (drop i out') = take (8 * (count - i)) (readerStream rd)" .
    have "drop (8 * (count - (i + 1))) (drop 8 (readerStream rd)) =
        drop (8 * (count - (i + 1)) + 8) (readerStream rd)"
      by (simp only: drop_drop)
    also have "8 * (count - (i + 1)) + 8 = 8 * (count - i)"
      using True by simp
    finally have "readerStream rd' = drop (8 * (count - i)) (readerStream rd)"
      using str' str by simp
    then show ?thesis
      using step res len pre_i bits_i px px' tot tot' by simp
  qed
qed

lemma readBytes_for_fail:
  assumes "4 * this_totalPixels rd \<le> length (this_pixels rd)"
    and "length (readerStream rd) < 8 * (count - i)"
  shows "readBytes_for i count rd out = Inl NotEnoughData"
  using assms
proof (induction i count rd out rule: readBytes_for.induct)
  case (1 i count rd out)
  from "1.prems" have True: "i < count"
    by (cases "i < count") simp_all
  show ?case
  proof (cases "8 \<le> length (readerStream rd)")
    case False
    then have "fst (reader_popByte rd) = None"
      using reader_popBits_None [OF "1.prems"(1), of 8] by (simp add: reader_popByte_def)
    then obtain rd1 where "reader_popByte rd = (None, rd1)"
      by (cases "reader_popByte rd") simp
    then show ?thesis
      by (subst readBytes_for.simps) (simp add: True)
  next
    case enough: True
    from reader_popByte_Some [OF "1.prems"(1) this] obtain v rd1 where
      pop: "reader_popByte rd = (Some v, rd1)" and px: "this_pixels rd1 = this_pixels rd"
      and tot: "this_totalPixels rd1 = this_totalPixels rd"
      and str: "readerStream rd1 = drop 8 (readerStream rd)"
      by blast
    have step: "readBytes_for i count rd out = readBytes_for (i + 1) count rd1 (out[i := toUint8 v])"
      by (subst readBytes_for.simps) (simp add: True pop)
    have "length (readerStream rd1) < 8 * (count - (i + 1))"
      using "1.prems" True enough by (simp add: str)
    with "1.IH" [OF True pop [symmetric] refl] "1.prems" px tot
    show ?thesis
      by (simp add: step)
  qed
qed

lemma readBytes_ok:
  assumes "4 * this_totalPixels rd \<le> length (this_pixels rd)"
    and "8 * count \<le> length (readerStream rd)"
  shows "\<exists>bs rd'. readBytes rd count = Inr (bs, rd') \<and> length bs = count \<and>
           bitsOfBytes bs = take (8 * count) (readerStream rd) \<and>
           readerStream rd' = drop (8 * count) (readerStream rd) \<and>
           this_pixels rd' = this_pixels rd \<and> this_totalPixels rd' = this_totalPixels rd"
  using readBytes_for_ok [of rd "replicate count 0" count 0] assms
  by (simp add: readBytes_def)

lemma readBytes_fail:
  assumes "4 * this_totalPixels rd \<le> length (this_pixels rd)"
    and "length (readerStream rd) < 8 * count"
  shows "readBytes rd count = Inl NotEnoughData"
  using readBytes_for_fail [of rd count 0] assms
  by (simp add: readBytes_def)

section \<open>Lengths as two bytes\<close>

lemma unat_u8_less: "unat (x :: u8) < 256"
  using unsigned_less [of x, where ?'a = nat] by simp

lemma be16_less: "256 * unat (hi :: u8) + unat (lo :: u8) < 65536"
  using unat_u8_less [of hi] unat_u8_less [of lo] by simp

lemma be16:
  "push_bit 8 (ucast (hi :: u8)) OR ucast (lo :: u8) = (word_of_nat (256 * unat hi + unat lo) :: int32)"
proof -
  have "push_bit 8 (ucast hi :: int32) AND ucast lo = 0"
    by (rule bit_word_eqI) (auto simp add: bit_and_iff bit_push_bit_iff bit_ucast_iff dest: bit_imp_le_length)
  then have "push_bit 8 (ucast hi :: int32) + ucast lo = push_bit 8 (ucast hi) OR ucast lo"
    by (rule disjunctive_add_eq_or)
  moreover have "(word_of_nat (256 * unat hi + unat lo) :: int32) = push_bit 8 (ucast hi) + ucast lo"
    by (simp add: push_bit_eq_mult of_nat_unat)
  ultimately show ?thesis by simp
qed

lemma sint_be16:
  "sint (word_of_nat (256 * unat (hi :: u8) + unat (lo :: u8)) :: int32) = int (256 * unat hi + unat lo)"
proof (rule sint_of_nat_small)
  have "256 * unat hi + unat lo < 65536"
    by (rule be16_less)
  also have "(65536 :: nat) \<le> 2 ^ 31"
    by simp
  finally show "256 * unat hi + unat lo < 2 ^ 31" .
qed

lemma bit_255: "bit (0xFF :: int32) j \<longleftrightarrow> j < 8"
proof -
  have "(0xFF :: int32) = mask 8"
    by (simp add: mask_eq_exp_minus_1)
  then show ?thesis
    by (simp only: bit_mask_iff) auto
qed

lemma bit_small_nat:
  assumes "n < 2 ^ m" and "m \<le> i"
  shows "\<not> bit (n :: nat) i"
proof -
  have "(2 :: nat) ^ m \<le> 2 ^ i"
    using assms(2) by (intro power_increasing) simp_all
  with assms(1) have "n < 2 ^ i" by (rule less_le_trans)
  then show ?thesis
    by (simp add: bit_iff_odd)
qed

lemma lengthBytes_be:
  assumes "length p < 65536"
  shows "256 * unat (lengthBytes p ! 0) + unat (lengthBytes p ! 1) = length p"
proof -
  define n where "n = length p"
  define N :: int32 where "N = word_of_nat n"
  define hi where "hi = lengthBytes p ! 0"
  define lo where "lo = lengthBytes p ! 1"
  have hi: "hi = ucast (signed_drop_bit 8 N AND 0xFF)" and lo: "lo = ucast (N AND 0xFF)"
    by (simp_all add: hi_def lo_def lengthBytes_def toUint8_def N_def n_def)
  have small: "n < 2 ^ 16"
    using assms by (simp add: n_def)
  have bitN: "bit N i \<longleftrightarrow> i < 16 \<and> bit n i" for i
  proof (cases "i < 16")
    case True
    then show ?thesis
      unfolding N_def by (simp add: bit_of_nat_iff)
  next
    case False
    then have "\<not> bit n i"
      using bit_small_nat [OF small, of i] by simp
    with False show ?thesis
      unfolding N_def by (simp add: bit_of_nat_iff)
  qed
  have bit_hi: "bit hi j \<longleftrightarrow> j < 8 \<and> bit N (8 + j)" for j
    unfolding hi bit_ucast_iff bit_and_iff bit_signed_drop_bit_iff bit_255 by auto
  have bit_lo: "bit lo j \<longleftrightarrow> j < 8 \<and> bit N j" for j
    unfolding lo bit_ucast_iff bit_and_iff bit_255 by auto
  have "push_bit 8 (ucast hi) OR ucast lo = N"
  proof (rule bit_word_eqI)
    fix i
    assume "i < LENGTH(32)"
    then show "bit (push_bit 8 (ucast hi) OR ucast lo :: int32) i \<longleftrightarrow> bit N i"
      unfolding bit_or_iff bit_push_bit_iff bit_ucast_iff bit_hi bit_lo
      using bitN [of i] by auto
  qed
  then have "(word_of_nat (256 * unat hi + unat lo) :: int32) = word_of_nat n"
    by (simp only: be16 N_def)
  then have "take_bit LENGTH(32) (256 * unat hi + unat lo) = take_bit LENGTH(32) n"
    by (simp only: word_of_nat_eq_iff)
  then have "take_bit 32 (256 * unat hi + unat lo) = take_bit 32 n"
    by simp
  moreover have "256 * unat hi + unat lo < 2 ^ 32"
    using be16_less [of hi lo] by simp
  moreover have "n < 2 ^ 32"
    using small by simp
  ultimately have "256 * unat hi + unat lo = n"
    by (simp add: take_bit_nat_eq_self)
  then show ?thesis
    by (simp add: hi_def lo_def n_def)
qed

lemma nat_ceiling_div3: "nat \<lceil>real n / 3\<rceil> = (n + 2) div 3"
proof -
  have "\<lceil>real n / 3\<rceil> = \<lceil>of_int (int n) / of_int 3 :: real\<rceil>"
    by simp
  also have "\<dots> = - (- int n div 3)"
    by (rule ceiling_divide_eq_div)
  also have "\<dots> = int ((n + 2) div 3)"
    by (simp add: zdiv_int)
  finally show ?thesis by simp
qed

lemma pixelsNeeded_eq: "pixelsNeeded L = (8 * (7 + L) + 2) div 3"
  unfolding pixelsNeeded_def nat_ceiling_div3 by (simp add: mult.commute)

section \<open>The format decision and the payload\<close>

lemma wf_new: "4 * this_totalPixels (newPixelBitReader p) \<le> length (this_pixels (newPixelBitReader p))"
  by (simp add: newPixelBitReader_def)

lemma list_ex_neq4:
  assumes "length xs = 4" and "length ys = 4"
  shows "list_ex (\<lambda>i. xs ! i \<noteq> ys ! i) [0..<4] \<longleftrightarrow> xs \<noteq> ys"
  using assms by (auto simp add: list_ex_iff list_eq_iff_nth_eq)

lemma bitsOfBytes_MAGIC_length: "length (bitsOfBytes MAGIC_MARKER) = 32"
  by (simp add: length_bitsOfBytes MAGIC_MARKER_def)

text \<open>Reading the magic with a new reader.\<close>

lemma read_magic:
  assumes "32 \<le> length (lsbStream p)"
  shows "\<exists>magic rd. readBytes (newPixelBitReader p) 4 = Inr (magic, rd) \<and> length magic = 4 \<and>
           bitsOfBytes magic = take 32 (lsbStream p) \<and>
           readerStream rd = drop 32 (lsbStream p) \<and>
           4 * this_totalPixels rd \<le> length (this_pixels rd)"
  using readBytes_ok [OF wf_new, of 4 p] assms wf_new [of p]
  by (auto simp add: readerStream_new)

lemma decideFormat_short:
  assumes "length (lsbStream p) < 32"
  shows "decideFormat p = Inl NotEnoughData"
  using readBytes_fail [OF wf_new, of p 4] assms
  by (simp add: decideFormat_def readerStream_new)

lemma decideFormat_no_magic:
  assumes "32 \<le> length (lsbStream p)"
    and "take 32 (lsbStream p) \<noteq> bitsOfBytes MAGIC_MARKER"
  shows "decideFormat p = Inl MagicMarkerNotFound"
proof -
  from read_magic [OF assms(1)] obtain magic rd where
    rd: "readBytes (newPixelBitReader p) 4 = Inr (magic, rd)" and len: "length magic = 4"
    and bits: "bitsOfBytes magic = take 32 (lsbStream p)"
    by blast
  have "magic \<noteq> MAGIC_MARKER"
    using bits assms(2) by auto
  then have "list_ex (\<lambda>i. magic ! i \<noteq> MAGIC_MARKER ! i) [0..<4]"
    using list_ex_neq4 [of magic MAGIC_MARKER] len by (simp add: MAGIC_MARKER_def)
  then show ?thesis
    unfolding decideFormat_def rd by (simp only: sum.case prod.case if_True)
qed

text \<open>The decision taken on the three bytes after the magic.\<close>

lemma decideFormat_peek:
  assumes "take 56 (lsbStream p) = bitsOfBytes (MAGIC_MARKER @ [b0, b1, b2])"
  shows "\<exists>reader2. decideFormat p =
           Inr (if (b0 = 0 \<or> b0 = 1) \<and> 1 \<le> 256 * unat b1 + unat b2 \<and> 256 * unat b1 + unat b2 \<le> 2000
                then \<lparr>isNewFormat = True, dataTypeByte = b0,
                      dataLength = word_of_nat (256 * unat b1 + unat b2)\<rparr>
                else \<lparr>isNewFormat = False, dataTypeByte = 0,
                      dataLength = word_of_nat (256 * unat b0 + unat b1)\<rparr>, reader2) \<and>
           readerStream reader2 = drop 56 (lsbStream p) \<and>
           4 * this_totalPixels reader2 \<le> length (this_pixels reader2)"
proof -
  define S where "S = lsbStream p"
  have len56: "length (take 56 S) = 56"
    using assms by (simp add: S_def length_bitsOfBytes MAGIC_MARKER_def)
  then have long: "56 \<le> length S"
    by simp
  have "take 32 (take 56 S) = take 32 (bitsOfBytes MAGIC_MARKER @ bitsOfBytes [b0, b1, b2])"
    using assms by (simp only: S_def bitsOfBytes_append)
  then have magic_bits: "take 32 S = bitsOfBytes MAGIC_MARKER"
    by (simp add: bitsOfBytes_MAGIC_length)
  have "drop 32 (take 56 S) = drop 32 (bitsOfBytes MAGIC_MARKER @ bitsOfBytes [b0, b1, b2])"
    using assms by (simp only: S_def bitsOfBytes_append)
  then have peek_bits: "take 24 (drop 32 S) = bitsOfBytes [b0, b1, b2]"
    by (simp add: bitsOfBytes_MAGIC_length drop_take)
  from read_magic [of p] long obtain magic rd where
    rd: "readBytes (newPixelBitReader p) 4 = Inr (magic, rd)" and len: "length magic = 4"
    and bits: "bitsOfBytes magic = take 32 S"
    and str: "readerStream rd = drop 32 S"
    and wf: "4 * this_totalPixels rd \<le> length (this_pixels rd)"
    unfolding S_def by auto
  have "magic = MAGIC_MARKER"
    using bits magic_bits by (simp add: bitsOfBytes_inj)
  then have no_ex: "\<not> list_ex (\<lambda>i. magic ! i \<noteq> MAGIC_MARKER ! i) [0..<4]"
    using list_ex_neq4 [of magic MAGIC_MARKER] len by simp
  have "8 * 3 \<le> length (readerStream rd)"
    using long by (simp add: str)
  from readBytes_ok [OF wf this] obtain peek reader2 where
    rd2: "readBytes rd 3 = Inr (peek, reader2)"
    and "bitsOfBytes peek = take (8 * 3) (readerStream rd)"
    and str2: "readerStream reader2 = drop (8 * 3) (readerStream rd)"
    and same: "this_pixels reader2 = this_pixels rd" "this_totalPixels reader2 = this_totalPixels rd"
    by blast
  then have "bitsOfBytes peek = bitsOfBytes [b0, b1, b2]"
    by (simp add: str peek_bits)
  then have peek: "peek = [b0, b1, b2]"
    by (rule bitsOfBytes_inj)
  have str2': "readerStream reader2 = drop 56 S"
    using str2 by (simp add: str)
  have wf2: "4 * this_totalPixels reader2 \<le> length (this_pixels reader2)"
    using wf same by simp
  have "decideFormat p =
      Inr (if (b0 = 0 \<or> b0 = 1) \<and> 1 \<le> sint (push_bit 8 (ucast b1) OR ucast b2 :: int32) \<and>
              sint (push_bit 8 (ucast b1) OR ucast b2 :: int32) \<le> 2000
           then \<lparr>isNewFormat = True, dataTypeByte = b0,
                 dataLength = push_bit 8 (ucast b1) OR ucast b2\<rparr>
           else \<lparr>isNewFormat = False, dataTypeByte = 0,
                 dataLength = push_bit 8 (ucast b0) OR ucast b1\<rparr>, reader2)"
    unfolding decideFormat_def rd
    by (simp only: sum.case prod.case no_ex if_False rd2 peek Let_def nth_Cons_0 nth_Cons_Suc
        One_nat_def numeral_2_eq_2 if_distrib [of Inr] if_distrib [of "\<lambda>d. (d, reader2)"])
  moreover have "1 \<le> int n \<longleftrightarrow> 1 \<le> n" and "int n \<le> 2000 \<longleftrightarrow> n \<le> 2000" for n :: nat
    by linarith+
  ultimately have "decideFormat p =
      Inr (if (b0 = 0 \<or> b0 = 1) \<and> 1 \<le> 256 * unat b1 + unat b2 \<and> 256 * unat b1 + unat b2 \<le> 2000
           then \<lparr>isNewFormat = True, dataTypeByte = b0,
                 dataLength = word_of_nat (256 * unat b1 + unat b2)\<rparr>
           else \<lparr>isNewFormat = False, dataTypeByte = 0,
                 dataLength = word_of_nat (256 * unat b0 + unat b1)\<rparr>, reader2)"
    by (simp only: be16 sint_be16)
  with str2' wf2 show ?thesis
    unfolding S_def by blast
qed

lemma decode_old_format:
  assumes peek: "take 56 (lsbStream p) = bitsOfBytes (MAGIC_MARKER @ [b0, b1, b2])"
    and old: "\<not> ((b0 = 0 \<or> b0 = 1) \<and> 1 \<le> 256 * unat b1 + unat b2 \<and> 256 * unat b1 + unat b2 \<le> 2000)"
  shows "if 8 * (6 + (256 * unat b0 + unat b1)) \<le> length (lsbStream p)
         then \<exists>payload. decodeAddressFromImage p =
                  Inr (\<lparr>isNewFormat = False, dataTypeByte = 0,
                        dataLength = word_of_nat (256 * unat b0 + unat b1)\<rparr>, payload) \<and>
                length payload = 256 * unat b0 + unat b1 \<and>
                bitsOfBytes payload = take (8 * (256 * unat b0 + unat b1)) (drop 48 (lsbStream p))
         else decodeAddressFromImage p = Inl NotEnoughData"
proof -
  define S where "S = lsbStream p"
  define len where "len = 256 * unat b0 + unat b1"
  define d where "d = \<lparr>isNewFormat = False, dataTypeByte = 0, dataLength = word_of_nat len :: int32\<rparr>"
  from decideFormat_peek [OF peek] old obtain reader2 where
    dec: "decideFormat p = Inr (d, reader2)"
    by (auto simp add: d_def len_def)
  have "length (take 56 S) = 56"
    using peek by (simp add: S_def length_bitsOfBytes MAGIC_MARKER_def)
  then have long: "56 \<le> length S"
    by simp
  from read_magic [of p] long obtain magic rd where
    rd: "readBytes (newPixelBitReader p) 4 = Inr (magic, rd)"
    and str: "readerStream rd = drop 32 S"
    and wf: "4 * this_totalPixels rd \<le> length (this_pixels rd)"
    unfolding S_def by auto
  have "8 * 2 \<le> length (readerStream rd)"
    using long by (simp add: str)
  from readBytes_ok [OF wf this] obtain skipped reader3 where
    rd3: "readBytes rd 2 = Inr (skipped, reader3)"
    and str3: "readerStream reader3 = drop (8 * 2) (readerStream rd)"
    and same: "this_pixels reader3 = this_pixels rd" "this_totalPixels reader3 = this_totalPixels rd"
    by blast
  have str3': "readerStream reader3 = drop 48 S"
    using str3 by (simp add: str)
  have wf3: "4 * this_totalPixels reader3 \<le> length (this_pixels reader3)"
    using wf same by simp
  have "dataLength d = word_of_nat len"
    by (simp add: d_def)
  then have "sint (dataLength d) = int len"
    unfolding len_def by (simp only: sint_be16)
  then have count: "nat (sint (dataLength d)) = len"
    by (simp only: nat_int)
  have unfold: "decodeAddressFromImage p =
      (case readBytes reader3 len of Inl e \<Rightarrow> Inl e | Inr (dataBytesOld, r) \<Rightarrow> Inr (d, dataBytesOld))"
    unfolding decodeAddressFromImage_def dec
    by (simp add: rd rd3 count) (simp add: d_def)
  show ?thesis
  proof (cases "8 * (6 + len) \<le> length S")
    case True
    then have "8 * len \<le> length (readerStream reader3)"
      by (simp add: str3')
    from readBytes_ok [OF wf3 this] obtain payload r where
      "readBytes reader3 len = Inr (payload, r)" and "length payload = len"
      and "bitsOfBytes payload = take (8 * len) (readerStream reader3)"
      by blast
    then have "decodeAddressFromImage p = Inr (d, payload) \<and> length payload = len \<and>
        bitsOfBytes payload = take (8 * len) (drop 48 S)"
      by (simp add: unfold str3')
    with True show ?thesis
      unfolding S_def len_def d_def by auto
  next
    case False
    then have "length (readerStream reader3) < 8 * len"
      using long by (simp add: str3')
    from readBytes_fail [OF wf3 this] have "decodeAddressFromImage p = Inl NotEnoughData"
      by (simp add: unfold)
    with False show ?thesis
      unfolding S_def len_def by simp
  qed
qed

lemma decode_new_format:
  assumes peek: "take 56 (lsbStream p) = bitsOfBytes (MAGIC_MARKER @ [b0, b1, b2])"
    and new: "(b0 = 0 \<or> b0 = 1) \<and> 1 \<le> 256 * unat b1 + unat b2 \<and> 256 * unat b1 + unat b2 \<le> 2000"
  shows "if 8 * (7 + (256 * unat b1 + unat b2)) \<le> length (lsbStream p)
         then \<exists>payload. decodeAddressFromImage p =
                  Inr (\<lparr>isNewFormat = True, dataTypeByte = b0,
                        dataLength = word_of_nat (256 * unat b1 + unat b2)\<rparr>, payload) \<and>
                length payload = 256 * unat b1 + unat b2 \<and>
                bitsOfBytes payload = take (8 * (256 * unat b1 + unat b2)) (drop 56 (lsbStream p))
         else decodeAddressFromImage p = Inl NotEnoughData"
proof -
  define S where "S = lsbStream p"
  define len where "len = 256 * unat b1 + unat b2"
  define d where "d = \<lparr>isNewFormat = True, dataTypeByte = b0, dataLength = word_of_nat len :: int32\<rparr>"
  from decideFormat_peek [OF peek] new obtain reader2 where
    dec: "decideFormat p = Inr (d, reader2)"
    and str2: "readerStream reader2 = drop 56 S"
    and wf2: "4 * this_totalPixels reader2 \<le> length (this_pixels reader2)"
    by (auto simp add: d_def len_def S_def)
  have "dataLength d = word_of_nat len"
    by (simp add: d_def)
  then have sint_len: "sint (dataLength d) = int len"
    unfolding len_def by (simp only: sint_be16)
  have range: "\<not> (sint (dataLength d) < 1 \<or> 2000 < sint (dataLength d))"
    using new unfolding sint_len len_def by linarith
  have count: "nat (sint (dataLength d)) = len"
    by (simp only: sint_len nat_int)
  have unfold: "decodeAddressFromImage p =
      (case readBytes reader2 len of Inl e \<Rightarrow> Inl e | Inr (dataBytes, r) \<Rightarrow> Inr (d, dataBytes))"
    unfolding decodeAddressFromImage_def dec
    by (simp only: sum.case prod.case range if_False count) (simp add: d_def)
  show ?thesis
  proof (cases "8 * (7 + len) \<le> length S")
    case True
    then have "8 * len \<le> length (readerStream reader2)"
      by (simp add: str2)
    from readBytes_ok [OF wf2 this] obtain payload r where
      "readBytes reader2 len = Inr (payload, r)" and "length payload = len"
      and "bitsOfBytes payload = take (8 * len) (readerStream reader2)"
      by blast
    then have "decodeAddressFromImage p = Inr (d, payload) \<and> length payload = len \<and>
        bitsOfBytes payload = take (8 * len) (drop 56 S)"
      by (simp add: unfold str2)
    with True show ?thesis
      unfolding S_def len_def d_def by auto
  next
    case False
    moreover have "1 \<le> len"
      using new by (simp add: len_def)
    ultimately have "length (readerStream reader2) < 8 * len"
      by (simp add: str2)
    from readBytes_fail [OF wf2 this] have "decodeAddressFromImage p = Inl NotEnoughData"
      by (simp add: unfold)
    with False show ?thesis
      unfolding S_def len_def by simp
  qed
qed

section \<open>The pixel writer\<close>

lemma padBits_loop_spec:
  "fst (padBits_loop k acc bq) = fst (popBits_loop k acc (take k (this_bits bq @ replicate k False))) \<and>
   this_bits (snd (padBits_loop k acc bq)) = drop k (this_bits bq)"
proof (induction k acc bq rule: padBits_loop.induct)
  case (1 bits3 bq)
  then show ?case by simp
next
  case (2 k bits3 bq)
  show ?case
  proof (cases "this_bits bq")
    case Nil
    then have pop: "popBits bq 1 = (None, bq)"
      by (simp add: popBits_def)
    from "2.IH" [OF pop [symmetric]] Nil show ?thesis
      by (simp add: pop [unfolded One_nat_def])
  next
    case (Cons b bs)
    define bq' where "bq' = bq\<lparr>this_bits := bs\<rparr>"
    have "popBits_loop 1 0 (b # bs) = (push_bit 1 0 OR of_bool b, bs)"
      by (simp only: One_nat_def popBits_loop.simps)
    then have pop: "popBits bq 1 = (Some (of_bool b), bq')"
      by (simp add: popBits_def Cons bq'_def)
    define A where "A = bs @ replicate k False"
    have "replicate (Suc k) False = replicate k False @ [False]"
      by (simp add: replicate_append_same)
    then have "bs @ replicate (Suc k) False = A @ [False]"
      by (simp add: A_def)
    moreover have "k \<le> length A"
      by (simp add: A_def)
    ultimately have "take k (bs @ replicate (Suc k) False) = take k (bs @ replicate k False)"
      unfolding A_def [symmetric] by simp
    with "2.IH" [OF pop [symmetric]] Cons show ?thesis
      by (simp add: pop [unfolded One_nat_def] bq'_def)
  qed
qed

lemma takePixelBits_snd: "this_bits (snd (takePixelBits bq)) = drop 3 (this_bits bq)"
proof (cases "3 \<le> length (this_bits bq)")
  case True
  then show ?thesis
    by (simp add: takePixelBits_def size_bits_def popBits_Some)
next
  case False
  then show ?thesis
    by (simp add: takePixelBits_def size_bits_def padBits_loop_spec)
qed

lemma takePixelBits_bit:
  "bit (fst (takePixelBits bq)) i \<longleftrightarrow> i < 3 \<and> (this_bits bq @ [False, False, False]) ! (2 - i)"
proof (cases "3 \<le> length (this_bits bq)")
  case True
  then have "fst (takePixelBits bq) = fst (popBits_loop 3 0 (this_bits bq))"
    by (simp add: takePixelBits_def size_bits_def popBits_Some)
  moreover have "2 - i < length (this_bits bq)"
    using True by simp
  then have "(this_bits bq @ [False, False, False]) ! (2 - i) = this_bits bq ! (2 - i)"
    by (simp only: nth_append if_True)
  ultimately show ?thesis
    using popBits_loop_bit [OF True, of 0 i] by auto
next
  case False
  define padded where "padded = take 3 (this_bits bq @ replicate 3 False)"
  have len: "3 \<le> length padded"
    by (simp add: padded_def)
  have rep: "replicate 3 False = [False, False, False]"
    by (simp add: numeral_3_eq_3)
  have "fst (takePixelBits bq) = fst (popBits_loop 3 0 padded)"
    using False by (simp add: takePixelBits_def size_bits_def padBits_loop_spec padded_def)
  moreover have "padded ! (2 - i) = (this_bits bq @ [False, False, False]) ! (2 - i)"
    unfolding padded_def rep by (rule nth_take) simp
  ultimately show ?thesis
    using popBits_loop_bit [OF len, of 0 i] by auto
qed

lemma bit_254: "bit (0xFE :: int32) j \<longleftrightarrow> 0 < j \<and> j < 8"
proof -
  have "(0xFE :: int32) = push_bit 1 (mask 7)"
    by (simp add: mask_eq_exp_minus_1 push_bit_eq_mult)
  then show ?thesis
    by (simp only: bit_push_bit_iff bit_mask_iff) auto
qed

lemma sint_small_word:
  assumes "\<And>j. bit (w :: int32) j \<Longrightarrow> j < 8"
  shows "0 \<le> sint w" and "sint w \<le> 255"
proof -
  have "take_bit 8 w = w"
    by (rule bit_word_eqI) (auto simp add: bit_take_bit_iff dest: assms)
  then have "unat w = unat (take_bit 8 w)"
    by simp
  also have "\<dots> = take_bit 8 (unat w)"
    by (rule unsigned_take_bit_eq)
  also have "\<dots> < 2 ^ 8"
    by (rule take_bit_nat_less_exp)
  finally have "unat w < 256"
    by simp
  then have small: "unat w < 2 ^ 31"
    by simp
  have "sint (word_of_nat (unat w) :: int32) = int (unat w)"
    using small by (rule sint_of_nat_small)
  then have eq: "sint w = int (unat w)"
    by simp
  have "0 \<le> int (unat w)" and "int (unat w) \<le> 255"
    using \<open>unat w < 256\<close> by linarith+
  then show "0 \<le> sint w" and "sint w \<le> 255"
    by (simp_all only: eq)
qed

lemma store_lsb:
  fixes x y :: int32
  shows "bit (toUint8Clamped ((x AND 0xFE) OR (y AND 1))) 0 \<longleftrightarrow> bit y 0"
proof -
  define w where "w = (x AND 0xFE) OR (y AND 1)"
  have "bit w j \<longleftrightarrow> (bit x j \<and> bit (0xFE :: int32) j) \<or> (bit y j \<and> bit (1 :: int32) j)" for j
    unfolding w_def by (simp only: bit_or_iff bit_and_iff)
  then have raw: "bit w j \<longleftrightarrow> (bit x j \<and> 0 < j \<and> j < 8) \<or> (bit y j \<and> j = 0)" for j
    by (simp only: bit_254 bit_1_iff)
  have bits: "bit w j \<longleftrightarrow> (bit x j \<and> 0 < j \<and> j < 8) \<or> (bit y 0 \<and> j = 0)" for j
  proof (cases "j = 0")
    case True
    then show ?thesis using raw [of 0] by (simp only:)
  next
    case False
    then show ?thesis using raw [of j] by (simp only: simp_thms)
  qed
  have small: "j < 8" if "bit w j" for j
    using that bits [of j] by (cases "j = 0") simp_all
  have "0 \<le> sint w" and "sint w \<le> 255"
    by (rule sint_small_word, rule small, assumption)+
  then have "toUint8Clamped w = ucast w"
    by (simp add: toUint8Clamped_def)
  then have "bit (toUint8Clamped w) 0 \<longleftrightarrow> bit w 0"
    by (simp only: bit_ucast_iff) simp
  then show ?thesis
    unfolding bits unfolding w_def by simp
qed

lemma store_255: "toUint8Clamped 255 = 255"
  by (simp add: toUint8Clamped_def)

lemma shifted_lsb:
  fixes V :: int32
  shows "bit (signed_drop_bit 2 V) 0 \<longleftrightarrow> bit V 2"
    and "bit (signed_drop_bit 1 V) 0 \<longleftrightarrow> bit V 1"
  unfolding bit_signed_drop_bit_iff by simp_all

lemma length_writePixel: "length (writePixel p k V) = length p"
  by (simp add: writePixel_def Let_def)

lemma take_writePixel: "take (4 * k) (writePixel p k V) = take (4 * k) p"
  by (simp add: writePixel_def Let_def)

lemma drop_writePixel: "drop (4 * k + 4) (writePixel p k V) = drop (4 * k + 4) p"
  by (simp add: writePixel_def Let_def)

lemma writePixel_alpha:
  assumes "4 * k + 3 < length p"
  shows "writePixel p k V ! (4 * k + 3) = 255"
  using assms by (simp add: writePixel_def Let_def store_255 mult.commute)

lemma writePixel_lsbs:
  assumes "4 * k + 3 < length p"
  shows "pixelLSBs (writePixel p k V) k = [bit V 2, bit V 1, bit V 0]"
proof -
  define base where "base = k * 4"
  define c0 where "c0 = toUint8Clamped ((px_at p base AND 0xFE) OR (signed_drop_bit 2 V AND 1))"
  define p1 where "p1 = p[base := c0]"
  define c1 where "c1 = toUint8Clamped ((px_at p1 (base + 1) AND 0xFE) OR (signed_drop_bit 1 V AND 1))"
  define p2 where "p2 = p1[base + 1 := c1]"
  define c2 where "c2 = toUint8Clamped ((px_at p2 (base + 2) AND 0xFE) OR (V AND 1))"
  define p3 where "p3 = p2[base + 2 := c2]"
  have w: "writePixel p k V = p3[base + 3 := toUint8Clamped 255]"
    unfolding writePixel_def Let_def p3_def c2_def p2_def c1_def p1_def c0_def base_def ..
  have range: "base + 3 < length p"
    using assms by (simp add: base_def)
  have "writePixel p k V ! base = c0" "writePixel p k V ! (base + 1) = c1"
    "writePixel p k V ! (base + 2) = c2"
    using range unfolding w p3_def p2_def p1_def by simp_all
  moreover have "bit c0 0 \<longleftrightarrow> bit V 2" "bit c1 0 \<longleftrightarrow> bit V 1" "bit c2 0 \<longleftrightarrow> bit V 0"
    unfolding c0_def c1_def c2_def store_lsb shifted_lsb by simp_all
  ultimately show ?thesis
    unfolding pixelLSBs_def by (simp only: base_def mult.commute [of 4 k])
qed

lemma encodeLSB_while_empty:
  "this_bits bq = [] \<Longrightarrow> encodeLSB_while bq k p = (None, p)"
  by (subst encodeLSB_while.simps) (simp add: size_bits_def)

lemma encodeLSB_while_full:
  "this_bits bq \<noteq> [] \<Longrightarrow> length p \<le> 4 * k \<Longrightarrow> encodeLSB_while bq k p = (Some ImageTooSmallForData, p)"
  by (subst encodeLSB_while.simps) (simp add: size_bits_def)

lemma encodeLSB_while_step:
  "this_bits bq \<noteq> [] \<Longrightarrow> \<not> length p \<le> 4 * k \<Longrightarrow>
   encodeLSB_while bq k p =
     encodeLSB_while (snd (takePixelBits bq)) (k + 1) (writePixel p k (fst (takePixelBits bq)))"
  by (subst encodeLSB_while.simps) (simp add: size_bits_def)

lemma pixels_after_step:
  assumes "bs \<noteq> []"
  shows "k + 1 + (length (drop 3 bs) + 2) div 3 = k + (length bs + 2) div 3"
proof -
  define n where "n = length bs"
  have "0 < n"
    using assms by (simp add: n_def)
  then have "k + 1 + (n - 3 + 2) div 3 = k + (n + 2) div 3"
    by presburger
  then show ?thesis
    by (simp only: n_def length_drop)
qed

lemma encodeLSB_while_length: "length (snd (encodeLSB_while bq k p)) = length p"
proof (induction bq k p rule: encodeLSB_while.induct)
  case (1 bq k p)
  consider "this_bits bq = []" | "this_bits bq \<noteq> []" "length p \<le> 4 * k"
    | "this_bits bq \<noteq> []" "\<not> length p \<le> 4 * k"
    by blast
  then show ?case
  proof cases
    case 1
    then show ?thesis by (simp add: encodeLSB_while_empty)
  next
    case 2
    then show ?thesis by (simp add: encodeLSB_while_full)
  next
    case 3
    then have "0 < size_bits bq"
      by (simp add: size_bits_def)
    from "1.IH" [OF this 3(2)] show ?thesis
      by (simp add: encodeLSB_while_step [OF 3] length_writePixel)
  qed
qed

lemma encodeLSB_while_take: "take (4 * k) (snd (encodeLSB_while bq k p)) = take (4 * k) p"
proof (induction bq k p rule: encodeLSB_while.induct)
  case (1 bq k p)
  consider "this_bits bq = []" | "this_bits bq \<noteq> []" "length p \<le> 4 * k"
    | "this_bits bq \<noteq> []" "\<not> length p \<le> 4 * k"
    by blast
  then show ?case
  proof cases
    case 1
    then show ?thesis by (simp add: encodeLSB_while_empty)
  next
    case 2
    then show ?thesis by (simp add: encodeLSB_while_full)
  next
    case 3
    define p1 where "p1 = writePixel p k (fst (takePixelBits bq))"
    define p' where "p' = snd (encodeLSB_while (snd (takePixelBits bq)) (k + 1) p1)"
    have "0 < size_bits bq"
      using 3 by (simp add: size_bits_def)
    from "1.IH" [OF this 3(2)] have "take (4 * (k + 1)) p' = take (4 * (k + 1)) p1"
      by (simp add: p'_def p1_def)
    then have "take (4 * k) (take (4 * (k + 1)) p') = take (4 * k) (take (4 * (k + 1)) p1)"
      by simp
    then have "take (4 * k) p' = take (4 * k) p1"
      by (simp add: min_def)
    then show ?thesis
      by (simp add: encodeLSB_while_step [OF 3] p'_def p1_def take_writePixel)
  qed
qed

lemma encodeLSB_while_drop:
  "drop (4 * (k + (length (this_bits bq) + 2) div 3)) (snd (encodeLSB_while bq k p)) =
   drop (4 * (k + (length (this_bits bq) + 2) div 3)) p"
proof (induction bq k p rule: encodeLSB_while.induct)
  case (1 bq k p)
  consider "this_bits bq = []" | "this_bits bq \<noteq> []" "length p \<le> 4 * k"
    | "this_bits bq \<noteq> []" "\<not> length p \<le> 4 * k"
    by blast
  then show ?case
  proof cases
    case 1
    then show ?thesis by (simp add: encodeLSB_while_empty)
  next
    case 2
    then show ?thesis by (simp add: encodeLSB_while_full)
  next
    case 3
    define p1 where "p1 = writePixel p k (fst (takePixelBits bq))"
    define p' where "p' = snd (encodeLSB_while (snd (takePixelBits bq)) (k + 1) p1)"
    define m where "m = (length (drop 3 (this_bits bq)) + 2) div 3"
    have cnt: "k + 1 + m = k + (length (this_bits bq) + 2) div 3"
      unfolding m_def using 3(1) by (rule pixels_after_step)
    have pos: "0 < size_bits bq"
      using 3 by (simp add: size_bits_def)
    have idx: "4 * (k + 1 + m) = 4 * m + (4 * k + 4)"
      by simp
    from "1.IH" [OF pos 3(2)] have "drop (4 * (k + 1 + m)) p' = drop (4 * (k + 1 + m)) p1"
      by (simp add: p'_def p1_def m_def takePixelBits_snd)
    also have "\<dots> = drop (4 * m) (drop (4 * k + 4) p1)"
      by (simp only: idx drop_drop)
    also have "\<dots> = drop (4 * m) (drop (4 * k + 4) p)"
      by (simp only: p1_def drop_writePixel)
    also have "\<dots> = drop (4 * (k + 1 + m)) p"
      by (simp only: idx drop_drop)
    finally show ?thesis
      unfolding cnt by (simp add: encodeLSB_while_step [OF 3] p'_def p1_def)
  qed
qed

lemma encodeLSB_while_ok:
  "this_bits bq = [] \<or> 4 * length (this_bits bq) + 12 * k \<le> 3 * length p \<Longrightarrow>
   fst (encodeLSB_while bq k p) = None"
proof (induction bq k p rule: encodeLSB_while.induct)
  case (1 bq k p)
  show ?case
  proof (cases "this_bits bq = []")
    case True
    then show ?thesis by (simp add: encodeLSB_while_empty)
  next
    case False
    with "1.prems" have cap: "4 * length (this_bits bq) + 12 * k \<le> 3 * length p"
      by simp
    have "0 < length (this_bits bq)"
      using False by simp
    with cap have room: "\<not> length p \<le> 4 * k"
      by linarith
    have "0 < size_bits bq"
      using False by (simp add: size_bits_def)
    moreover have "this_bits (snd (takePixelBits bq)) = [] \<or>
        4 * length (this_bits (snd (takePixelBits bq))) + 12 * (k + 1)
          \<le> 3 * length (writePixel p k (fst (takePixelBits bq)))"
      using cap by (simp add: takePixelBits_snd length_writePixel) linarith
    ultimately show ?thesis
      using "1.IH" [OF _ room] by (simp add: encodeLSB_while_step [OF False room])
  qed
qed

lemma pixelLSBs_cong:
  assumes "take n a = take n b" and "4 * j + 3 \<le> n"
  shows "pixelLSBs a j = pixelLSBs b j"
proof -
  have "a ! i = b ! i" if "i < n" for i
    using nth_take [OF that, of a] nth_take [OF that, of b] assms(1) by simp
  then show ?thesis
    using assms(2) by (simp add: pixelLSBs_def)
qed

lemma takePixelBits_triple:
  "[bit (fst (takePixelBits bq)) 2, bit (fst (takePixelBits bq)) 1, bit (fst (takePixelBits bq)) 0] =
   take 3 (this_bits bq @ [False, False, False])"
proof -
  define P where "P = this_bits bq @ [False, False, False]"
  have len: "3 \<le> length P"
    by (simp add: P_def)
  have "bit (fst (takePixelBits bq)) 2 = P ! 0" "bit (fst (takePixelBits bq)) 1 = P ! 1"
    "bit (fst (takePixelBits bq)) 0 = P ! 2"
    unfolding P_def by (simp_all only: takePixelBits_bit) simp_all
  moreover have "take 3 P = [P ! 0, P ! 1, P ! 2]"
  proof (rule nth_equalityI)
    show "length (take 3 P) = length [P ! 0, P ! 1, P ! 2]"
      using len by simp
  next
    fix i
    assume "i < length (take 3 P)"
    then have "i \<in> {0, 1, 2}"
      by auto
    then show "take 3 P ! i = [P ! 0, P ! 1, P ! 2] ! i"
      by auto
  qed
  ultimately show ?thesis
    unfolding P_def by simp
qed

lemma encodeLSB_while_stream:
  "length (this_bits bq) \<le> 3 * (length p div 4 - k) \<Longrightarrow>
   take (length (this_bits bq))
     (concat (map (pixelLSBs (snd (encodeLSB_while bq k p))) [k..<length p div 4])) = this_bits bq"
proof (induction bq k p rule: encodeLSB_while.induct)
  case (1 bq k p)
  show ?case
  proof (cases "this_bits bq = []")
    case True
    then show ?thesis by simp
  next
    case False
    define bs where "bs = this_bits bq"
    define T where "T = length p div 4"
    have pos: "0 < length bs"
      using False by (simp add: bs_def)
    with "1.prems" have kT: "k < T"
      unfolding bs_def T_def by (cases "k < length p div 4") simp_all
    then have range: "4 * k + 3 < length p"
      unfolding T_def by linarith
    then have room: "\<not> length p \<le> 4 * k"
      by simp
    define V where "V = fst (takePixelBits bq)"
    define bq' where "bq' = snd (takePixelBits bq)"
    define p1 where "p1 = writePixel p k V"
    define p' where "p' = snd (encodeLSB_while bq' (k + 1) p1)"
    have step: "snd (encodeLSB_while bq k p) = p'"
      by (simp add: encodeLSB_while_step [OF False room] p'_def p1_def bq'_def V_def)
    have bs': "this_bits bq' = drop 3 bs"
      by (simp add: bq'_def bs_def takePixelBits_snd)
    have len1: "length p1 = length p"
      by (simp add: p1_def length_writePixel)
    have "length (this_bits bq') \<le> 3 * (length p1 div 4 - (k + 1))"
      using "1.prems" kT unfolding bs' len1 bs_def T_def by simp
    moreover have "0 < size_bits bq"
      using False by (simp add: size_bits_def)
    ultimately have IH: "take (length (drop 3 bs))
        (concat (map (pixelLSBs p') [k + 1..<T])) = drop 3 bs"
      using "1.IH" [OF _ room] unfolding p'_def p1_def bq'_def V_def bs' [unfolded bq'_def] T_def
      by (simp add: length_writePixel)
    have "take (4 * (k + 1)) p' = take (4 * (k + 1)) p1"
      unfolding p'_def by (rule encodeLSB_while_take)
    then have "pixelLSBs p' k = pixelLSBs p1 k"
      by (rule pixelLSBs_cong) simp
    also have "\<dots> = [bit V 2, bit V 1, bit V 0]"
      unfolding p1_def using range by (rule writePixel_lsbs)
    also have "\<dots> = take 3 (bs @ [False, False, False])"
      unfolding V_def bs_def by (rule takePixelBits_triple)
    finally have first: "pixelLSBs p' k = take 3 (bs @ [False, False, False])" .
    define S' where "S' = concat (map (pixelLSBs p') [k + 1..<T])"
    have "[k..<T] = k # [k + 1..<T]"
      using kT by (simp add: upt_conv_Cons)
    then have split: "concat (map (pixelLSBs p') [k..<T]) = take 3 (bs @ [False, False, False]) @ S'"
      by (simp add: first S'_def)
    have "take (length bs) (take 3 (bs @ [False, False, False]) @ S') = bs"
    proof (cases "3 \<le> length bs")
      case True
      then have "take 3 (bs @ [False, False, False]) = take 3 bs"
        by simp
      moreover have "take (length bs - 3) S' = drop 3 bs"
        using IH by (simp add: S'_def)
      ultimately show ?thesis
        using True by (simp add: min_def)
    next
      case False
      then have "take (length bs) (take 3 (bs @ [False, False, False]) @ S') =
          take (length bs) (take 3 (bs @ [False, False, False]))"
        by simp
      also have "\<dots> = take (length bs) (bs @ [False, False, False])"
        using False by (simp add: min_def)
      also have "\<dots> = bs"
        by simp
      finally show ?thesis .
    qed
    then show ?thesis
      unfolding step split [unfolded T_def] bs_def T_def by simp
  qed
qed

lemma encodeLSB_while_alpha:
  "k \<le> j \<Longrightarrow> j < k + (length (this_bits bq) + 2) div 3 \<Longrightarrow> 4 * j + 3 < length p \<Longrightarrow>
   snd (encodeLSB_while bq k p) ! (4 * j + 3) = 255"
proof (induction bq k p rule: encodeLSB_while.induct)
  case (1 bq k p)
  have False: "this_bits bq \<noteq> []"
    using "1.prems" by auto
  define bs where "bs = this_bits bq"
  have room: "\<not> length p \<le> 4 * k"
    using "1.prems"(1,3) by linarith
  define V where "V = fst (takePixelBits bq)"
  define bq' where "bq' = snd (takePixelBits bq)"
  define p1 where "p1 = writePixel p k V"
  define p' where "p' = snd (encodeLSB_while bq' (k + 1) p1)"
  have step: "snd (encodeLSB_while bq k p) = p'"
    by (simp add: encodeLSB_while_step [OF False room] p'_def p1_def bq'_def V_def)
  have bs': "this_bits bq' = drop 3 bs"
    by (simp add: bq'_def bs_def takePixelBits_snd)
  have len1: "length p1 = length p"
    by (simp add: p1_def length_writePixel)
  have size: "0 < size_bits bq"
    using False by (simp add: size_bits_def)
  have cnt: "k + 1 + (length (this_bits bq') + 2) div 3 = k + (length bs + 2) div 3"
    unfolding bs' using False [folded bs_def] by (rule pixels_after_step)
  show ?case
  proof (cases "j = k")
    case True
    have range: "4 * k + 3 < length p"
      using "1.prems"(3) True by simp
    have "take (4 * (k + 1)) p' = take (4 * (k + 1)) p1"
      unfolding p'_def by (rule encodeLSB_while_take)
    then have "take (4 * (k + 1)) p' ! (4 * k + 3) = take (4 * (k + 1)) p1 ! (4 * k + 3)"
      by simp
    then have "p' ! (4 * k + 3) = p1 ! (4 * k + 3)"
      by simp
    also have "\<dots> = 255"
      unfolding p1_def using range by (rule writePixel_alpha)
    finally show ?thesis
      unfolding step True .
  next
    case neq: False
    then have "k + 1 \<le> j"
      using "1.prems"(1) by simp
    moreover have "j < k + 1 + (length (this_bits bq') + 2) div 3"
      using "1.prems"(2) unfolding cnt bs_def .
    moreover have "4 * j + 3 < length p1"
      using "1.prems"(3) by (simp add: len1)
    ultimately have "snd (encodeLSB_while bq' (k + 1) p1) ! (4 * j + 3) = 255"
      using "1.IH" [OF size room] unfolding bq'_def p1_def V_def by simp
    then show ?thesis
      unfolding step p'_def .
  qed
qed

section \<open>Encoding a byte sequence and a frame\<close>

lemma encodeLSB_bits: "this_bits (foldl pushByte newBitQueue dataBytes) = bitsOfBytes dataBytes"
  by (simp add: foldl_pushByte_bits newBitQueue_def)

lemma pixels_used: "nat \<lceil>real (8 * n) / 3\<rceil> = (8 * n + 2) div 3"
  by (rule nat_ceiling_div3)

lemma encodeLSB_ok:
  assumes "32 * length dataBytes \<le> 3 * length p"
  shows "fst (encodeLSB p dataBytes) = None"
  unfolding encodeLSB_def
  by (rule encodeLSB_while_ok) (use assms in \<open>simp add: encodeLSB_bits length_bitsOfBytes\<close>)

lemma encodeLSB_length: "length (snd (encodeLSB p dataBytes)) = length p"
  unfolding encodeLSB_def by (rule encodeLSB_while_length)

lemma encodeLSB_drop:
  "drop (4 * ((8 * length dataBytes + 2) div 3)) (snd (encodeLSB p dataBytes)) =
   drop (4 * ((8 * length dataBytes + 2) div 3)) p"
  using encodeLSB_while_drop [of 0 "foldl pushByte newBitQueue dataBytes" p]
  by (simp add: encodeLSB_def encodeLSB_bits length_bitsOfBytes)

lemma encodeLSB_stream:
  assumes "8 * length dataBytes \<le> 3 * (length p div 4)"
  shows "take (8 * length dataBytes) (lsbStream (snd (encodeLSB p dataBytes))) = bitsOfBytes dataBytes"
  using encodeLSB_while_stream [of "foldl pushByte newBitQueue dataBytes" p 0] assms
  by (simp add: lsbStream_def encodeLSB_length) (simp add: encodeLSB_def encodeLSB_bits length_bitsOfBytes)

lemma encodeLSB_alpha:
  assumes "j < (8 * length dataBytes + 2) div 3"
    and "4 * j + 3 < length p"
  shows "snd (encodeLSB p dataBytes) ! (4 * j + 3) = 255"
  using encodeLSB_while_alpha [of 0 j "foldl pushByte newBitQueue dataBytes" p] assms
  by (simp add: encodeLSB_def encodeLSB_bits length_bitsOfBytes)

lemma encodeLSB_alphas:
  assumes j: "4 * j + 3 < length p"
  shows "snd (encodeLSB p dataBytes) ! (4 * j + 3) =
           (if j < (8 * length dataBytes + 2) div 3 then 255 else p ! (4 * j + 3))"
proof -
  define used where "used = (8 * length dataBytes + 2) div 3"
  define p' where "p' = snd (encodeLSB p dataBytes)"
  show ?thesis
  proof (cases "j < used")
    case True
    then have "p' ! (4 * j + 3) = 255"
      unfolding p'_def used_def using j by (intro encodeLSB_alpha)
    with True show ?thesis
      by (simp add: used_def p'_def)
  next
    case False
    have len: "length p' = length p"
      unfolding p'_def by (rule encodeLSB_length)
    have dropped: "drop (4 * used) p' = drop (4 * used) p"
      unfolding p'_def used_def by (rule encodeLSB_drop)
    define d where "d = 4 * j + 3 - 4 * used"
    have idx: "4 * used + d = 4 * j + 3"
      using False by (simp add: d_def)
    have le: "4 * used \<le> length p" "4 * used \<le> length p'"
      using j idx len by linarith+
    have "p' ! (4 * used + d) = drop (4 * used) p' ! d"
      using le(2) by (simp add: nth_drop)
    also have "\<dots> = drop (4 * used) p ! d"
      by (simp only: dropped)
    also have "\<dots> = p ! (4 * used + d)"
      using le(1) by (simp add: nth_drop)
    finally have "p' ! (4 * j + 3) = p ! (4 * j + 3)"
      by (simp only: idx)
    with False show ?thesis
      by (simp add: used_def p'_def)
  qed
qed

lemma length_full: "length (full t dataBytes) = 7 + length dataBytes"
  by (simp add: full_def MAGIC_MARKER_def)

lemma pixelsNeeded_full: "pixelsNeeded (length dataBytes) = (8 * length (full t dataBytes) + 2) div 3"
  by (simp add: pixelsNeeded_eq length_full)

text \<open>The check of \<open>encodeAddressInImage\<close> compares with \<open>pixelsNeeded\<close>.\<close>

lemma encodeAddressInImage_check:
  "encodeAddressInImage p t dataBytes =
     (if length p < 4 * pixelsNeeded (length dataBytes)
      then (Some (ImageTooSmall (pixelsNeeded (length dataBytes)) (length p)), p)
      else encodeLSB p (full t dataBytes))"
proof -
  have "nat \<lceil>real (length (full t dataBytes) * 8) / 3\<rceil> = pixelsNeeded (length dataBytes)"
    by (simp add: pixelsNeeded_def length_full)
  then show ?thesis
    unfolding encodeAddressInImage_def Let_def by (simp only:)
qed

lemma encodeAddressInImage_small:
  assumes "length p < 4 * pixelsNeeded (length dataBytes)"
  shows "encodeAddressInImage p t dataBytes =
           (Some (ImageTooSmall (pixelsNeeded (length dataBytes)) (length p)), p)"
  using assms by (simp add: encodeAddressInImage_check)

lemma encodeAddressInImage_large:
  assumes "4 * pixelsNeeded (length dataBytes) \<le> length p"
  shows "encodeAddressInImage p t dataBytes = encodeLSB p (full t dataBytes)"
    and "8 * length (full t dataBytes) \<le> 3 * (length p div 4)"
    and "fst (encodeAddressInImage p t dataBytes) = None"
proof -
  show eq: "encodeAddressInImage p t dataBytes = encodeLSB p (full t dataBytes)"
    using assms by (simp add: encodeAddressInImage_check)
  have "pixelsNeeded (length dataBytes) \<le> length p div 4"
    using assms by linarith
  then show cap: "8 * length (full t dataBytes) \<le> 3 * (length p div 4)"
    unfolding pixelsNeeded_full [of dataBytes t] by linarith
  then have "32 * length (full t dataBytes) \<le> 3 * length p"
    by linarith
  then show "fst (encodeAddressInImage p t dataBytes) = None"
    unfolding eq by (rule encodeLSB_ok)
qed

section \<open>Decoding what was embedded\<close>

lemma stream_parts:
  assumes "take (8 * (length xs + length ys)) S = bitsOfBytes (xs @ ys)"
  shows "take (8 * length xs) S = bitsOfBytes xs"
    and "take (8 * length ys) (drop (8 * length xs) S) = bitsOfBytes ys"
    and "8 * (length xs + length ys) \<le> length S"
proof -
  define n where "n = 8 * length xs"
  define m where "m = 8 * length ys"
  have nm: "8 * (length xs + length ys) = n + m"
    by (simp add: n_def m_def)
  have whole: "take (n + m) S = bitsOfBytes xs @ bitsOfBytes ys"
    using assms unfolding nm by (simp only: bitsOfBytes_append)
  have lens: "length (bitsOfBytes xs) = n" "length (bitsOfBytes ys) = m"
    by (simp_all add: n_def m_def length_bitsOfBytes)
  have "length (take (n + m) S) = n + m"
    unfolding whole using lens by simp
  then show "8 * (length xs + length ys) \<le> length S"
    unfolding nm by simp
  have "take n (take (n + m) S) = take n (bitsOfBytes xs @ bitsOfBytes ys)"
    by (simp only: whole)
  then show "take (8 * length xs) S = bitsOfBytes xs"
    using lens by (simp add: n_def [symmetric])
  have "drop n (take (n + m) S) = drop n (bitsOfBytes xs @ bitsOfBytes ys)"
    by (simp only: whole)
  then show "take (8 * length ys) (drop (8 * length xs) S) = bitsOfBytes ys"
    using lens by (simp add: n_def [symmetric] m_def [symmetric] drop_take)
qed

lemma length_lengthBytes: "length (lengthBytes p) = 2"
  by (simp add: lengthBytes_def)

lemma lengthBytes_pair: "lengthBytes p = [lengthBytes p ! 0, lengthBytes p ! 1]"
  by (simp add: lengthBytes_def)

lemma full_split: "full t p = (MAGIC_MARKER @ [t, lengthBytes p ! 0, lengthBytes p ! 1]) @ p"
  by (simp add: full_def)

lemma round_trip_aux:
  assumes len: "1 \<le> length p" "length p \<le> 2000"
    and tag: "t = 0 \<or> t = 1"
    and cap: "4 * pixelsNeeded (length p) \<le> length pixels"
  shows "fst (encodeAddressInImage pixels t p) = None \<and>
         decodeAddressFromImage (snd (encodeAddressInImage pixels t p)) =
           Inr (\<lparr>isNewFormat = True, dataTypeByte = t, dataLength = word_of_nat (length p)\<rparr>, p)"
proof -
  define hi where "hi = lengthBytes p ! 0"
  define lo where "lo = lengthBytes p ! 1"
  define hdr where "hdr = MAGIC_MARKER @ [t, hi, lo]"
  define p' where "p' = snd (encodeLSB pixels (full t p))"
  define S where "S = lsbStream p'"
  note eq = encodeAddressInImage_large(1) [OF cap, of t]
  note room = encodeAddressInImage_large(2) [OF cap, of t]
  note ok = encodeAddressInImage_large(3) [OF cap, of t]
  have lhdr: "length hdr = 7"
    by (simp add: hdr_def MAGIC_MARKER_def)
  have fr: "full t p = hdr @ p"
    unfolding hdr_def hi_def lo_def by (rule full_split)
  have "take (8 * length (full t p)) S = bitsOfBytes (full t p)"
    unfolding S_def p'_def using room by (rule encodeLSB_stream)
  then have whole: "take (8 * (length hdr + length p)) S = bitsOfBytes (hdr @ p)"
    by (simp add: fr)
  note parts = stream_parts [OF whole]
  have "take (8 * 7) S = bitsOfBytes hdr"
    using parts(1) by (simp only: lhdr)
  then have peek: "take 56 (lsbStream p') = bitsOfBytes (MAGIC_MARKER @ [t, hi, lo])"
    by (simp add: S_def hdr_def)
  have be: "256 * unat hi + unat lo = length p"
    unfolding hi_def lo_def using len(2) by (intro lengthBytes_be) simp
  have new: "(t = 0 \<or> t = 1) \<and> 1 \<le> 256 * unat hi + unat lo \<and> 256 * unat hi + unat lo \<le> 2000"
    using tag len by (simp add: be)
  have enough: "8 * (7 + (256 * unat hi + unat lo)) \<le> length (lsbStream p')"
    using parts(3) by (simp add: lhdr be S_def)
  from decode_new_format [OF peek new] enough obtain payload where
    dec: "decodeAddressFromImage p' =
      Inr (\<lparr>isNewFormat = True, dataTypeByte = t,
            dataLength = word_of_nat (256 * unat hi + unat lo)\<rparr>, payload)"
    and bits: "bitsOfBytes payload = take (8 * (256 * unat hi + unat lo)) (drop 56 (lsbStream p'))"
    by (auto simp only: if_True)
  have "take (8 * length p) (drop (8 * 7) S) = bitsOfBytes p"
    using parts(2) by (simp only: lhdr)
  then have "bitsOfBytes payload = bitsOfBytes p"
    using bits by (simp add: be S_def)
  then have "payload = p"
    by (rule bitsOfBytes_inj)
  with dec ok show ?thesis
    by (simp only: eq p'_def [symmetric] be)
qed

lemma legacy_aux:
  assumes short: "length payload < 65536"
    and embedded: "take (8 * (6 + length payload)) (lsbStream pixels) =
                     bitsOfBytes (MAGIC_MARKER @ lengthBytes payload @ payload)"
    and peek3: "take 24 (drop 32 (lsbStream pixels)) = bitsOfBytes [b0, b1, b2]"
    and old: "\<not> ((b0 = 0 \<or> b0 = 1) \<and> 1 \<le> 256 * unat b1 + unat b2 \<and> 256 * unat b1 + unat b2 \<le> 2000)"
  shows "decodeAddressFromImage pixels =
           Inr (\<lparr>isNewFormat = False, dataTypeByte = 0, dataLength = word_of_nat (length payload)\<rparr>,
                payload)"
proof -
  define S where "S = lsbStream pixels"
  define hdr where "hdr = MAGIC_MARKER @ lengthBytes payload"
  have lhdr: "length hdr = 6" and lmagic: "length MAGIC_MARKER = 4"
    by (simp_all add: hdr_def MAGIC_MARKER_def length_lengthBytes)
  have "take (8 * (6 + length payload)) S = bitsOfBytes (hdr @ payload)"
    using embedded by (simp add: S_def hdr_def)
  then have whole: "take (8 * (length hdr + length payload)) S = bitsOfBytes (hdr @ payload)"
    by (simp only: lhdr)
  note parts = stream_parts [OF whole]
  have "take (8 * 6) S = bitsOfBytes hdr"
    using parts(1) by (simp only: lhdr)
  then have "take (8 * (length MAGIC_MARKER + length (lengthBytes payload))) S =
      bitsOfBytes (MAGIC_MARKER @ lengthBytes payload)"
    by (simp only: lmagic length_lengthBytes hdr_def) simp
  note hparts = stream_parts [OF this]
  have magic: "take 32 S = bitsOfBytes MAGIC_MARKER"
    using hparts(1) by (simp only: lmagic) simp
  have lenb: "take 16 (drop 32 S) = bitsOfBytes (lengthBytes payload)"
    using hparts(2) by (simp only: lmagic length_lengthBytes) simp
  have "take 16 (take 24 (drop 32 S)) = take 16 (bitsOfBytes [b0, b1] @ bitsOfBytes [b2])"
    using peek3 bitsOfBytes_append [of "[b0, b1]" "[b2]"] by (simp add: S_def)
  then have "bitsOfBytes (lengthBytes payload) = bitsOfBytes [b0, b1]"
    by (simp add: lenb length_bitsOfBytes)
  then have "lengthBytes payload = [b0, b1]"
    by (rule bitsOfBytes_inj)
  then have b01: "b0 = lengthBytes payload ! 0" "b1 = lengthBytes payload ! 1"
    by simp_all
  have be: "256 * unat b0 + unat b1 = length payload"
    unfolding b01 using short by (rule lengthBytes_be)
  have "take (32 + 24) S = take 32 S @ take 24 (drop 32 S)"
    by (rule take_add)
  then have peek: "take 56 (lsbStream pixels) = bitsOfBytes (MAGIC_MARKER @ [b0, b1, b2])"
    using peek3 by (simp add: magic [unfolded S_def] bitsOfBytes_append S_def)
  have enough: "8 * (6 + (256 * unat b0 + unat b1)) \<le> length (lsbStream pixels)"
    using parts(3) by (simp add: lhdr be S_def)
  from decode_old_format [OF peek old] enough obtain payload' where
    dec: "decodeAddressFromImage pixels =
      Inr (\<lparr>isNewFormat = False, dataTypeByte = 0,
            dataLength = word_of_nat (256 * unat b0 + unat b1)\<rparr>, payload')"
    and bits: "bitsOfBytes payload' = take (8 * (256 * unat b0 + unat b1)) (drop 48 (lsbStream pixels))"
    by (auto simp only: if_True)
  have "take (8 * length payload) (drop (8 * 6) S) = bitsOfBytes payload"
    using parts(2) by (simp only: lhdr)
  then have "bitsOfBytes payload' = bitsOfBytes payload"
    using bits by (simp add: be S_def)
  then have "payload' = payload"
    by (rule bitsOfBytes_inj)
  with dec show ?thesis
    by (simp only: be)
qed

lemma decode_no_magic:
  assumes "11 \<le> length pixels div 4"
    and "take 32 (lsbStream pixels) \<noteq> bitsOfBytes MAGIC_MARKER"
  shows "decodeAddressFromImage pixels = Inl MagicMarkerNotFound"
proof -
  have "32 \<le> length (lsbStream pixels)"
    using assms(1) by (simp add: length_lsbStream)
  then have "decideFormat pixels = Inl MagicMarkerNotFound"
    using assms(2) by (rule decideFormat_no_magic)
  then show ?thesis
    by (simp add: decodeAddressFromImage_def)
qed

section \<open>The claims\<close>

text \<open>
  C1 (round trip of the modern frame). For every payload of 1 to 2000 bytes, every type
  byte 0x00 or 0x01 and every pixel buffer of at least \<open>pixelsNeeded\<close> pixels, the encode
  succeeds, and the frame parsing of the decode on the buffer it leaves takes the new
  format and returns that type byte and exactly those payload bytes.
\<close>

theorem round_trip:
  assumes "1 \<le> length p" and "length p \<le> 2000"
    and "t = 0x00 \<or> t = 0x01"
    and "4 * pixelsNeeded (length p) \<le> length pixels"
  shows "fst (encodeAddressInImage pixels t p) = None \<and>
         decodeAddressFromImage (snd (encodeAddressInImage pixels t p)) =
           Inr (\<lparr>isNewFormat = True, dataTypeByte = t, dataLength = word_of_nat (length p)\<rparr>, p)"
  using assms by (rule round_trip_aux)

text \<open>Type byte 0x01 and payload 1A 2B 3C in an all-zero carrier of 27 pixels.\<close>

theorem round_trip_witness:
  "1 \<le> length [0x1A, 0x2B, 0x3C :: u8] \<and> length [0x1A, 0x2B, 0x3C :: u8] \<le> 2000 \<and>
   4 * pixelsNeeded (length [0x1A, 0x2B, 0x3C :: u8]) \<le> length (replicate 108 (0 :: u8)) \<and>
   fst (encodeAddressInImage (replicate 108 0) 0x01 [0x1A, 0x2B, 0x3C]) = None \<and>
   decodeAddressFromImage (snd (encodeAddressInImage (replicate 108 0) 0x01 [0x1A, 0x2B, 0x3C])) =
     Inr (\<lparr>isNewFormat = True, dataTypeByte = 0x01, dataLength = 3\<rparr>, [0x1A, 0x2B, 0x3C])"
  using round_trip [of "[0x1A, 0x2B, 0x3C]" "0x01" "replicate 108 0"]
  by (simp add: pixelsNeeded_eq)

text \<open>
  C2 (classification rule). When the bit stream of the buffer begins with the magic and three
  more bytes \<open>b0\<close>, \<open>b1\<close>, \<open>b2\<close>, the decision is: new format with type \<open>b0\<close> and length
  \<open>(b1 << 8) | b2\<close> exactly when \<open>b0\<close> is 0x00 or 0x01 and that length is in 1..2000;
  otherwise old format with length \<open>(b0 << 8) | b1\<close>. The second reader is left just
  after the three bytes.
\<close>

theorem classification_rule:
  assumes "take 56 (lsbStream pixels) = bitsOfBytes (MAGIC_MARKER @ [b0, b1, b2])"
  shows "(\<exists>reader2.
           decideFormat pixels =
             Inr (if (b0 = 0x00 \<or> b0 = 0x01) \<and>
                     1 \<le> 256 * unat b1 + unat b2 \<and> 256 * unat b1 + unat b2 \<le> 2000
                  then \<lparr>isNewFormat = True, dataTypeByte = b0,
                        dataLength = word_of_nat (256 * unat b1 + unat b2)\<rparr>
                  else \<lparr>isNewFormat = False, dataTypeByte = 0x00,
                        dataLength = word_of_nat (256 * unat b0 + unat b1)\<rparr>, reader2) \<and>
           readerStream reader2 = drop 56 (lsbStream pixels)) \<and>
         sint (word_of_nat (256 * unat b1 + unat b2) :: int32) = int (256 * unat b1 + unat b2) \<and>
         sint (word_of_nat (256 * unat b0 + unat b1) :: int32) = int (256 * unat b0 + unat b1)"
  using decideFormat_peek [OF assms] sint_be16 [of b1 b2] sint_be16 [of b0 b1] by blast

text \<open>
  The bytes 01 00 05 after the magic give the new format with length 5; the bytes 00 19 1E
  (an old frame of 25 bytes) give the old format with length 25.
\<close>

theorem classification_rule_witness:
  "take 56 (lsbStream (snd (encodeLSB (replicate 76 0) (MAGIC_MARKER @ [0x01, 0x00, 0x05])))) =
     bitsOfBytes (MAGIC_MARKER @ [0x01, 0x00, 0x05]) \<and>
   (\<exists>reader2. decideFormat (snd (encodeLSB (replicate 76 0) (MAGIC_MARKER @ [0x01, 0x00, 0x05]))) =
      Inr (\<lparr>isNewFormat = True, dataTypeByte = 0x01, dataLength = 5\<rparr>, reader2)) \<and>
   take 56 (lsbStream (snd (encodeLSB (replicate 76 0) (MAGIC_MARKER @ [0x00, 0x19, 0x1E])))) =
     bitsOfBytes (MAGIC_MARKER @ [0x00, 0x19, 0x1E]) \<and>
   (\<exists>reader2. decideFormat (snd (encodeLSB (replicate 76 0) (MAGIC_MARKER @ [0x00, 0x19, 0x1E]))) =
      Inr (\<lparr>isNewFormat = False, dataTypeByte = 0x00, dataLength = 25\<rparr>, reader2))"
proof -
  have new: "take 56 (lsbStream (snd (encodeLSB (replicate 76 0) (MAGIC_MARKER @ [0x01, 0x00, 0x05])))) =
      bitsOfBytes (MAGIC_MARKER @ [0x01, 0x00, 0x05])"
    using encodeLSB_stream [of "MAGIC_MARKER @ [0x01, 0x00, 0x05]" "replicate 76 0"]
    by (simp add: MAGIC_MARKER_def)
  have old: "take 56 (lsbStream (snd (encodeLSB (replicate 76 0) (MAGIC_MARKER @ [0x00, 0x19, 0x1E])))) =
      bitsOfBytes (MAGIC_MARKER @ [0x00, 0x19, 0x1E])"
    using encodeLSB_stream [of "MAGIC_MARKER @ [0x00, 0x19, 0x1E]" "replicate 76 0"]
    by (simp add: MAGIC_MARKER_def)
  from classification_rule [OF new] classification_rule [OF old] new old show ?thesis
    by auto
qed



text \<open>
  C4 (legacy compatibility). Let an old frame, the magic, the two length bytes and the
  payload, be embedded at the start of the bit stream of the buffer, and let the three
  bytes that follow the magic there not pass the new-format test. Then the decode takes
  the old format and returns exactly the payload, read after the magic and the two
  length bytes.
\<close>

theorem legacy_compatibility:
  assumes "length payload < 65536"
    and "take (8 * (6 + length payload)) (lsbStream pixels) =
           bitsOfBytes (MAGIC_MARKER @ lengthBytes payload @ payload)"
    and "take 24 (drop 32 (lsbStream pixels)) = bitsOfBytes [b0, b1, b2]"
    and "\<not> ((b0 = 0x00 \<or> b0 = 0x01) \<and> 1 \<le> 256 * unat b1 + unat b2 \<and> 256 * unat b1 + unat b2 \<le> 2000)"
  shows "decodeAddressFromImage pixels =
           Inr (\<lparr>isNewFormat = False, dataTypeByte = 0x00, dataLength = word_of_nat (length payload)\<rparr>,
                payload)"
  using assms by (rule legacy_aux)

text \<open>
  An old frame of eight bytes written by \<open>encodeLSB\<close> into an all-zero carrier of 38
  pixels: the bytes after the magic are 00 08 01, and 0x0801 is above 2000.
\<close>

theorem legacy_compatibility_witness:
  "length [1, 2, 3, 4, 5, 6, 7, 8 :: u8] < 65536 \<and>
   take (8 * (6 + length [1, 2, 3, 4, 5, 6, 7, 8 :: u8]))
     (lsbStream (snd (encodeLSB (replicate 152 0)
        (MAGIC_MARKER @ lengthBytes [1, 2, 3, 4, 5, 6, 7, 8] @ [1, 2, 3, 4, 5, 6, 7, 8])))) =
     bitsOfBytes (MAGIC_MARKER @ lengthBytes [1, 2, 3, 4, 5, 6, 7, 8] @ [1, 2, 3, 4, 5, 6, 7, 8]) \<and>
   take 24 (drop 32 (lsbStream (snd (encodeLSB (replicate 152 0)
        (MAGIC_MARKER @ lengthBytes [1, 2, 3, 4, 5, 6, 7, 8] @ [1, 2, 3, 4, 5, 6, 7, 8]))))) =
     bitsOfBytes [0x00, 0x08, 0x01] \<and>
   decodeAddressFromImage (snd (encodeLSB (replicate 152 0)
        (MAGIC_MARKER @ lengthBytes [1, 2, 3, 4, 5, 6, 7, 8] @ [1, 2, 3, 4, 5, 6, 7, 8]))) =
     Inr (\<lparr>isNewFormat = False, dataTypeByte = 0x00, dataLength = 8\<rparr>, [1, 2, 3, 4, 5, 6, 7, 8])"
proof -
  define payload :: "u8 list" where "payload = [1, 2, 3, 4, 5, 6, 7, 8]"
  define carrier where "carrier = snd (encodeLSB (replicate 152 0) (MAGIC_MARKER @ lengthBytes payload @ payload))"
  have short: "length payload < 65536"
    by (simp add: payload_def)
  have embedded: "take (8 * (6 + length payload)) (lsbStream carrier) =
      bitsOfBytes (MAGIC_MARKER @ lengthBytes payload @ payload)"
    using encodeLSB_stream [of "MAGIC_MARKER @ lengthBytes payload @ payload" "replicate 152 0"]
    by (simp add: carrier_def MAGIC_MARKER_def length_lengthBytes payload_def)
  have peek3: "take 24 (drop 32 (lsbStream carrier)) = bitsOfBytes [0x00, 0x08, 0x01]"
    unfolding carrier_def payload_def by code_simp
  have old: "\<not> (((0x00 :: u8) = 0x00 \<or> (0x00 :: u8) = 0x01) \<and>
      1 \<le> 256 * unat (0x08 :: u8) + unat (0x01 :: u8) \<and>
      256 * unat (0x08 :: u8) + unat (0x01 :: u8) \<le> 2000)"
    by simp
  have "decodeAddressFromImage carrier =
      Inr (\<lparr>isNewFormat = False, dataTypeByte = 0x00, dataLength = word_of_nat (length payload)\<rparr>, payload)"
    using short embedded peek3 old by (rule legacy_compatibility)
  then have "decodeAddressFromImage carrier =
      Inr (\<lparr>isNewFormat = False, dataTypeByte = 0x00, dataLength = 8\<rparr>, payload)"
    by (simp add: payload_def)
  with short embedded peek3 show ?thesis
    unfolding carrier_def payload_def by (simp only: simp_thms)
qed

text \<open>
  C5 (alpha normalization), as the code has it. After a successful \<open>encodeLSB\<close>, every
  pixel that carries data (each of the first \<open>ceil(8 * len / 3)\<close> pixels) has alpha 255,
  and every later pixel has the alpha it had before.
\<close>

theorem alpha_of_data_pixels:
  assumes "fst (encodeLSB pixels dataBytes) = None"
    and "4 * j + 3 < length pixels"
  shows "snd (encodeLSB pixels dataBytes) ! (4 * j + 3) =
           (if j < nat \<lceil>real (8 * length dataBytes) / 3\<rceil> then 255 else pixels ! (4 * j + 3))"
  unfolding pixels_used using assms(2) by (rule encodeLSB_alphas)

text \<open>One byte in four transparent pixels: pixel 0 carries data, pixel 3 does not.\<close>

theorem alpha_of_data_pixels_witness:
  "fst (encodeLSB (replicate 16 0) [0x44]) = None \<and>
   4 * 0 + 3 < length (replicate 16 (0 :: u8)) \<and>
   snd (encodeLSB (replicate 16 0) [0x44]) ! (4 * 0 + 3) = 255 \<and>
   4 * 3 + 3 < length (replicate 16 (0 :: u8)) \<and>
   snd (encodeLSB (replicate 16 0) [0x44]) ! (4 * 3 + 3) = 0"
proof -
  have ok: "fst (encodeLSB (replicate 16 0) [0x44]) = None"
    by (rule encodeLSB_ok) simp
  have "snd (encodeLSB (replicate 16 0) [0x44]) ! (4 * 0 + 3) = 255"
    using alpha_of_data_pixels [OF ok, of 0] by (simp add: pixels_used)
  moreover have "snd (encodeLSB (replicate 16 0) [0x44]) ! (4 * 3 + 3) = 0"
    using alpha_of_data_pixels [OF ok, of 3] by (simp add: pixels_used)
  ultimately show ?thesis
    using ok by simp
qed

text \<open>
  The claim as stated fails: after a successful \<open>encodeLSB\<close> of one byte into four
  transparent pixels, the fourth pixel still has alpha 0.
\<close>

theorem alpha_everywhere_counterexample:
  "encodeLSB (replicate 16 0) [0x44] =
     (None, [0, 1, 0, 255, 0, 0, 1, 255, 0, 0, 0, 255, 0, 0, 0, 0]) \<and>
   [0, 1, 0, 255, 0, 0, 1, 255, 0, 0, 0, 255, 0, 0, 0, 0 :: u8] ! (4 * 3 + 3) \<noteq> 255"
  by code_simp

text \<open>
  C6 (magic rejection). When the buffer has at least 11 pixels (so also when it has 12)
  and the first 32 bits of its bit stream are not the bits of 44 4F 47 45, the decode
  fails with the magic-marker error, whatever the rest of the buffer holds.
\<close>

theorem magic_rejection:
  assumes "11 \<le> length pixels div 4"
    and "take 32 (lsbStream pixels) \<noteq> bitsOfBytes MAGIC_MARKER"
  shows "decodeAddressFromImage pixels = Inl MagicMarkerNotFound"
  using assms by (rule decode_no_magic)

theorem magic_rejection_witness:
  "11 \<le> length (replicate 48 (0 :: u8)) div 4 \<and>
   take 32 (lsbStream (replicate 48 (0 :: u8))) \<noteq> bitsOfBytes MAGIC_MARKER \<and>
   decodeAddressFromImage (replicate 48 0) = Inl MagicMarkerNotFound"
proof -
  have enough: "11 \<le> length (replicate 48 (0 :: u8)) div 4"
    by simp
  have other: "take 32 (lsbStream (replicate 48 (0 :: u8))) \<noteq> bitsOfBytes MAGIC_MARKER"
    by code_simp
  from magic_rejection [OF enough other] enough other show ?thesis
    by (simp only: simp_thms)
qed

text \<open>
  C7 (frame effect of encodeLSB). \<open>encodeLSB\<close> keeps the length of the buffer, and every
  entry after the first \<open>ceil(8 * len / 3)\<close> pixels, all four channels, is as it was.
  This holds for every buffer, also when the encode fails.
\<close>

theorem encodeLSB_frame:
  "length (snd (encodeLSB pixels dataBytes)) = length pixels \<and>
   drop (4 * nat \<lceil>real (8 * length dataBytes) / 3\<rceil>) (snd (encodeLSB pixels dataBytes)) =
     drop (4 * nat \<lceil>real (8 * length dataBytes) / 3\<rceil>) pixels"
  unfolding pixels_used using encodeLSB_length encodeLSB_drop by blast

theorem encodeLSB_frame_witness:
  "nat \<lceil>real (8 * length [0x44 :: u8]) / 3\<rceil> = 3 \<and>
   length (snd (encodeLSB (replicate 12 0 @ [9, 8, 7, 6]) [0x44])) = 16 \<and>
   drop 12 (snd (encodeLSB (replicate 12 0 @ [9, 8, 7, 6]) [0x44])) = [9, 8, 7, 6]"
  using encodeLSB_frame [of "replicate 12 0 @ [9, 8, 7, 6]" "[0x44]"]
  by (simp add: pixels_used)

text \<open>
  C9 (the capacity error of the loop is unreachable). Under
  \<open>totalPixels * 3 >= 8 * len\<close>, with \<open>totalPixels = pixels.length / 4\<close> not rounded,
  \<open>encodeLSB\<close> raises nothing; and \<open>encodeAddressInImage\<close>, which checks the capacity
  first, never fails with the error of the loop.
\<close>

theorem capacity_error_unreachable:
  "(32 * length dataBytes \<le> 3 * length pixels \<longrightarrow> fst (encodeLSB pixels dataBytes) = None) \<and>
   fst (encodeAddressInImage pixels t dataBytes) \<noteq> Some ImageTooSmallForData"
proof (intro conjI impI)
  assume "32 * length dataBytes \<le> 3 * length pixels"
  then show "fst (encodeLSB pixels dataBytes) = None"
    by (rule encodeLSB_ok)
next
  show "fst (encodeAddressInImage pixels t dataBytes) \<noteq> Some ImageTooSmallForData"
  proof (cases "length pixels < 4 * pixelsNeeded (length dataBytes)")
    case True
    then show ?thesis
      by (simp add: encodeAddressInImage_small)
  next
    case False
    then have "4 * pixelsNeeded (length dataBytes) \<le> length pixels"
      by simp
    then have "fst (encodeAddressInImage pixels t dataBytes) = None"
      by (rule encodeAddressInImage_large(3))
    then show ?thesis
      by simp
  qed
qed

theorem capacity_error_unreachable_witness:
  "32 * length [0x44 :: u8] \<le> 3 * length (replicate 12 (0 :: u8)) \<and>
   fst (encodeLSB (replicate 12 0) [0x44]) = None"
  using capacity_error_unreachable [of "[0x44]" "replicate 12 0"] by simp

text \<open>
  C10 (the old-format length is not validated). When the three bytes after the magic do
  not pass the new-format test, the length \<open>(b0 << 8) | b1\<close>, any value from 0 to 65535,
  is used as it is: the decode returns that many payload bytes, read after the magic and
  the two length bytes, when the buffer holds them, and fails with the not-enough-data
  error otherwise.
\<close>

theorem legacy_length_unchecked:
  assumes "take 56 (lsbStream pixels) = bitsOfBytes (MAGIC_MARKER @ [b0, b1, b2])"
    and "\<not> ((b0 = 0x00 \<or> b0 = 0x01) \<and> 1 \<le> 256 * unat b1 + unat b2 \<and> 256 * unat b1 + unat b2 \<le> 2000)"
  shows "if 8 * (6 + (256 * unat b0 + unat b1)) \<le> length (lsbStream pixels)
         then \<exists>payload. decodeAddressFromImage pixels =
                  Inr (\<lparr>isNewFormat = False, dataTypeByte = 0x00,
                        dataLength = word_of_nat (256 * unat b0 + unat b1)\<rparr>, payload) \<and>
                length payload = 256 * unat b0 + unat b1 \<and>
                bitsOfBytes payload = take (8 * (256 * unat b0 + unat b1)) (drop 48 (lsbStream pixels))
         else decodeAddressFromImage pixels = Inl NotEnoughData"
  using assms by (rule decode_old_format)

text \<open>
  Length bytes 00 00 give an empty payload; length bytes FF FF in a carrier of 19 pixels
  give the not-enough-data error.
\<close>

theorem legacy_length_unchecked_witness:
  "take 56 (lsbStream (snd (encodeLSB (replicate 76 0) (MAGIC_MARKER @ [0x00, 0x00, 0x00])))) =
     bitsOfBytes (MAGIC_MARKER @ [0x00, 0x00, 0x00]) \<and>
   decodeAddressFromImage (snd (encodeLSB (replicate 76 0) (MAGIC_MARKER @ [0x00, 0x00, 0x00]))) =
     Inr (\<lparr>isNewFormat = False, dataTypeByte = 0x00, dataLength = 0\<rparr>, []) \<and>
   take 56 (lsbStream (snd (encodeLSB (replicate 76 0) (MAGIC_MARKER @ [0xFF, 0xFF, 0x00])))) =
     bitsOfBytes (MAGIC_MARKER @ [0xFF, 0xFF, 0x00]) \<and>
   decodeAddressFromImage (snd (encodeLSB (replicate 76 0) (MAGIC_MARKER @ [0xFF, 0xFF, 0x00]))) =
     Inl NotEnoughData"
proof -
  have zero: "take 56 (lsbStream (snd (encodeLSB (replicate 76 0) (MAGIC_MARKER @ [0x00, 0x00, 0x00])))) =
      bitsOfBytes (MAGIC_MARKER @ [0x00, 0x00, 0x00])"
    using encodeLSB_stream [of "MAGIC_MARKER @ [0x00, 0x00, 0x00]" "replicate 76 0"]
    by (simp add: MAGIC_MARKER_def)
  have big: "take 56 (lsbStream (snd (encodeLSB (replicate 76 0) (MAGIC_MARKER @ [0xFF, 0xFF, 0x00])))) =
      bitsOfBytes (MAGIC_MARKER @ [0xFF, 0xFF, 0x00])"
    using encodeLSB_stream [of "MAGIC_MARKER @ [0xFF, 0xFF, 0x00]" "replicate 76 0"]
    by (simp add: MAGIC_MARKER_def)
  have len: "length (lsbStream (snd (encodeLSB (replicate 76 0) d))) = 57" for d
    by (simp add: length_lsbStream encodeLSB_length)
  have "decodeAddressFromImage (snd (encodeLSB (replicate 76 0) (MAGIC_MARKER @ [0x00, 0x00, 0x00]))) =
      Inr (\<lparr>isNewFormat = False, dataTypeByte = 0x00, dataLength = 0\<rparr>, [])"
    using legacy_length_unchecked [OF zero] by (auto simp add: len)
  moreover have "decodeAddressFromImage (snd (encodeLSB (replicate 76 0) (MAGIC_MARKER @ [0xFF, 0xFF, 0x00]))) =
      Inl NotEnoughData"
    using legacy_length_unchecked [OF big] by (simp add: len)
  ultimately show ?thesis
    using zero big by (simp only: simp_thms)
qed

end
